theory Spec2Isabelle
  imports Main "HOL-Library.Sublist"
begin

section \<open>The session controller of src/hooks/useRoom.ts\<close>

text \<open>
  The hook \<^verbatim>\<open>useRoom\<close> owns three pieces of mutable state: the ref \<^verbatim>\<open>aborted\<close>, the React
  state \<^verbatim>\<open>isSessionActive\<close> and the \<^verbatim>\<open>Room\<close> object of the client library. Everything it does
  happens in callbacks that the JavaScript event loop runs one at a time: the two entry
  points \<^verbatim>\<open>startSession\<close> and \<^verbatim>\<open>endSession\<close>, the cleanup of the second effect, the handlers
  subscribed on the room, and the continuations of the promise chain that \<^verbatim>\<open>startSession\<close>
  builds. The model is a state record and one function per callback; an \<open>event\<close> says which
  callback the event loop runs next, and \<open>step\<close> dispatches on it.

  The client library, the token source wrapper, the toast component and the timer queue are
  not part of the source file. Calls into them are recorded in an effect log, in the order
  in which the controller issues them. What they answer is supplied by the events: the
  settlement of a promise, the emission of a room event, a change of \<^verbatim>\<open>room.state\<close>, the passing
  of time.
\<close>

subsection \<open>Data\<close>

text \<open>\<^verbatim>\<open>room.state\<close> is compared with string literals in the source, so it is a string here.\<close>

type_synonym conn_state = string

text \<open>An \<^verbatim>\<open>Error\<close> object, as far as the source reads it: \<^verbatim>\<open>error.name\<close> and \<^verbatim>\<open>error.message\<close>.\<close>

record js_error =
  err_name :: string
  err_message :: string

text \<open>A thrown value is an \<^verbatim>\<open>Error\<close> or something else (line 92 tests \<^verbatim>\<open>instanceof Error\<close>).\<close>

datatype thrown = IsError js_error | NotError

text \<open>What the credential endpoint answers, as far as the source reads it (lines 88, 108, 109).\<close>

record connection_details =
  serverUrl :: string
  roomName :: string
  participantToken :: string

text \<open>
  Modelled from the spec: the type \<^verbatim>\<open>AppConfig\<close> is declared in \<^verbatim>\<open>@/app-config\<close>, which is not
  part of the source file. The session configuration of the specification has a sandbox
  identifier, an optional agent name and a pre-connect buffering flag; these are the three
  fields the hook reads (lines 70, 73 and 102).
\<close>

record app_config =
  agentName :: "string option"
  sandboxId :: "string option"
  isPreConnectBufferEnabled :: bool

text \<open>
  The calls the controller issues on its collaborators: \<^verbatim>\<open>tokenSource.fetch\<close> with the agent
  name, \<^verbatim>\<open>room.connect\<close> with the server address and the token, \<^verbatim>\<open>room.disconnect\<close>,
  \<^verbatim>\<open>setMicrophoneEnabled(true, undefined, {preConnectBuffer})\<close> with the flag, and
  \<^verbatim>\<open>toastAlert\<close> with the title and the description. The number is the startup chain on
  whose behalf the call is made (chains are numbered in the order \<^verbatim>\<open>startSession\<close> creates
  them).

  Modelled from the spec: \<^verbatim>\<open>toastAlert\<close> is defined in \<^verbatim>\<open>@/components/livekit/alert-toast\<close>,
  which is not part of the source file. It is the notification sink of the specification:
  it takes a title and a description, and nothing it returns is used.
\<close>

datatype effect =
    TokenFetch nat "string option"
  | RoomConnect nat string string
  | RoomDisconnect
  | SetMicrophoneEnabled nat bool
  | ToastAlert string string

text \<open>
  Where a startup chain is suspended: on \<^verbatim>\<open>tokenSource.fetch\<close>, on \<^verbatim>\<open>room.connect\<close>, on the
  promise of lines 119-130, on \<^verbatim>\<open>setMicrophoneEnabled\<close>, or nowhere any more.
\<close>

datatype phase = Fetching | Connecting | Waiting | Enabling | Settled

text \<open>A chain remembers the \<^verbatim>\<open>isPreConnectBufferEnabled\<close> it read on line 102.\<close>

record chain =
  phase :: phase
  preConnectBuffer :: bool

text \<open>
  \<open>connected_listeners\<close> holds the \<^verbatim>\<open>onConnected\<close> closures registered for
  \<^verbatim>\<open>RoomEvent.Connected\<close>, each named by its chain; \<open>timers\<close> holds the pending
  \<^verbatim>\<open>setTimeout\<close> callbacks with their deadlines on the clock \<open>now\<close> (milliseconds).
\<close>

record state =
  aborted :: bool
  isSessionActive :: bool
  room_state :: conn_state
  appConfig :: app_config
  chains :: "chain list"
  connected_listeners :: "nat list"
  timers :: "(nat \<times> nat) list"
  now :: nat
  effects :: "effect list"

text \<open>A freshly mounted hook: a new \<^verbatim>\<open>Room\<close> is disconnected, nothing has been called.\<close>

definition init :: "app_config \<Rightarrow> state" where
  "init cfg =
     \<lparr>aborted = False, isSessionActive = False, room_state = ''disconnected'',
      appConfig = cfg, chains = [], connected_listeners = [], timers = [], now = 0,
      effects = []\<rparr>"

subsection \<open>Small helpers\<close>

definition emit :: "effect \<Rightarrow> state \<Rightarrow> state" where
  "emit e s = s\<lparr>effects := effects s @ [e]\<rparr>"

definition set_phase :: "nat \<Rightarrow> phase \<Rightarrow> state \<Rightarrow> state" where
  "set_phase c p s = s\<lparr>chains := (chains s)[c := (chains s ! c)\<lparr>phase := p\<rparr>]\<rparr>"

text \<open>The chain \<open>c\<close> exists and is suspended in phase \<open>p\<close>.\<close>

definition in_phase :: "nat \<Rightarrow> phase \<Rightarrow> state \<Rightarrow> bool" where
  "in_phase c p s = (c < length (chains s) \<and> phase (chains s ! c) = p)"

text \<open>\<^verbatim>\<open>String.prototype.includes\<close>.\<close>

definition str_includes :: "string \<Rightarrow> string \<Rightarrow> bool" where
  "str_includes s sub = sublist sub s"

text \<open>\<^verbatim>\<open>new Error(msg)\<close>.\<close>

definition new_Error :: "string \<Rightarrow> js_error" where
  "new_Error msg = \<lparr>err_name = ''Error'', err_message = msg\<rparr>"

subsection \<open>The credential fetch (lines 59-94)\<close>

text \<open>
  What the HTTP request of line 66 comes to: \<^verbatim>\<open>fetch\<close> throws, or it yields a response with
  its \<^verbatim>\<open>ok\<close> flag, the result of \<^verbatim>\<open>res.text()\<close> and the result of \<^verbatim>\<open>res.json()\<close>.
\<close>

record response =
  res_ok :: bool
  res_text :: "thrown + string"
  res_json :: "thrown + connection_details"

datatype http_outcome = FetchThrew thrown | Responded response

text \<open>The body of the \<^verbatim>\<open>try\<close> block, lines 66-89.\<close>

definition fetch_try :: "http_outcome \<Rightarrow> thrown + connection_details" where
  "fetch_try out =
     (case out of
        FetchThrew t \<Rightarrow> Inl t
      | Responded res \<Rightarrow>
          if \<not> res_ok res then
            (case res_text res of
               Inl t \<Rightarrow> Inl t
             | Inr errorText \<Rightarrow>
                 Inl (IsError (new_Error (''Failed to get connection details: '' @ errorText))))
          else res_json res)"

text \<open>
  The whole function given to \<^verbatim>\<open>TokenSource.custom\<close>, with the \<^verbatim>\<open>catch\<close> of lines 90-93. What
  it yields is what \<^verbatim>\<open>tokenSource.fetch\<close> settles with when the library runs it for a request.
\<close>

definition tokenSource :: "http_outcome \<Rightarrow> js_error + connection_details" where
  "tokenSource out =
     (case fetch_try out of
        Inl (IsError e) \<Rightarrow> Inl e
      | Inl NotError \<Rightarrow> Inl (new_Error ''Error fetching connection details!'')
      | Inr data \<Rightarrow> Inr data)"

subsection \<open>The entry points and the disposal\<close>

text \<open>\<^verbatim>\<open>startSession\<close>, lines 98-106: the synchronous part.\<close>

definition startSession :: "state \<Rightarrow> state" where
  "startSession s =
     (let s1 = s\<lparr>isSessionActive := True\<rparr> in
      if room_state s1 = ''disconnected'' then
        (let c = length (chains s1);
             s2 = s1\<lparr>chains := chains s1 @
                    [\<lparr>phase = Fetching,
                      preConnectBuffer = isPreConnectBufferEnabled (appConfig s1)\<rparr>]\<rparr>
         in emit (TokenFetch c (agentName (appConfig s2))) s2)
      else s1)"

text \<open>\<^verbatim>\<open>endSession\<close>, lines 178-180.\<close>

definition endSession :: "state \<Rightarrow> state" where
  "endSession s = s\<lparr>isSessionActive := False\<rparr>"

text \<open>The cleanup of the second effect, lines 51-54.\<close>

definition dispose :: "state \<Rightarrow> state" where
  "dispose s = emit RoomDisconnect (s\<lparr>aborted := True\<rparr>)"

subsection \<open>The startup chain\<close>

text \<open>The \<^verbatim>\<open>.catch\<close> handler, lines 145-174.\<close>

definition guidance :: string where
  "guidance = ''Connection timeout. Please check your LiveKit server configuration and environment variables.''"

definition displayed_message :: "js_error \<Rightarrow> string" where
  "displayed_message error =
     (let errorMessage = (if err_message error = [] then ''Unknown error'' else err_message error)
      in if str_includes errorMessage ''timeout'' \<or> str_includes errorMessage ''signal''
         then guidance else errorMessage)"

definition error_toast :: "js_error \<Rightarrow> effect" where
  "error_toast error =
     ToastAlert ''There was an error connecting to the agent''
       (err_name error @ '': '' @ displayed_message error)"

definition on_chain_error :: "js_error \<Rightarrow> state \<Rightarrow> state" where
  "on_chain_error error s =
     (if aborted s then s
      else
        (let s1 = (if room_state s \<noteq> ''disconnected'' then emit RoomDisconnect s else s);
             s2 = s1\<lparr>isSessionActive := False\<rparr>
         in emit (error_toast error) s2))"

text \<open>
  The first \<^verbatim>\<open>.then\<close>, lines 107-113, and the rejection of \<^verbatim>\<open>tokenSource.fetch\<close>, which skips
  both \<^verbatim>\<open>.then\<close> callbacks and reaches the \<^verbatim>\<open>.catch\<close>.
\<close>

definition on_fetch_settled :: "nat \<Rightarrow> js_error + connection_details \<Rightarrow> state \<Rightarrow> state" where
  "on_fetch_settled c r s =
     (if \<not> in_phase c Fetching s then s
      else case r of
          Inr connectionDetails \<Rightarrow>
            emit (RoomConnect c (serverUrl connectionDetails) (participantToken connectionDetails))
              (set_phase c Connecting s)
        | Inl error \<Rightarrow> on_chain_error error (set_phase c Settled s))"

text \<open>Lines 134-137: the call of \<^verbatim>\<open>setMicrophoneEnabled\<close>, on which the chain then waits.\<close>

definition enable_microphone :: "nat \<Rightarrow> state \<Rightarrow> state" where
  "enable_microphone c s =
     emit (SetMicrophoneEnabled c (preConnectBuffer (chains s ! c))) (set_phase c Enabling s)"

text \<open>
  The second \<^verbatim>\<open>.then\<close> up to its first suspension, lines 114-137: when the room does not
  report \<^verbatim>\<open>connected\<close>, the executor of the promise registers \<^verbatim>\<open>onConnected\<close> and sets the
  timer, and the chain waits; otherwise it goes on to the microphone at once.
\<close>

definition on_connect_resolved :: "nat \<Rightarrow> state \<Rightarrow> state" where
  "on_connect_resolved c s =
     (if \<not> in_phase c Connecting s then s
      else if room_state s \<noteq> ''connected'' then
        (set_phase c Waiting s)
          \<lparr>connected_listeners := connected_listeners s @ [c],
           timers := timers s @ [(c, now s + 5000)]\<rparr>
      else enable_microphone c s)"

definition on_connect_rejected :: "nat \<Rightarrow> js_error \<Rightarrow> state \<Rightarrow> state" where
  "on_connect_rejected c error s =
     (if \<not> in_phase c Connecting s then s
      else on_chain_error error (set_phase c Settled s))"

text \<open>
  \<^verbatim>\<open>resolve()\<close> of the promise of line 119: the first call releases the chain, which goes on
  to line 134 before any other callback runs; a later call does nothing.
\<close>

definition resolve_wait :: "nat \<Rightarrow> state \<Rightarrow> state" where
  "resolve_wait c s = (if in_phase c Waiting s then enable_microphone c s else s)"

text \<open>\<^verbatim>\<open>room.off(RoomEvent.Connected, onConnected)\<close> for the closure of chain \<open>c\<close>.\<close>

definition room_off_connected :: "nat \<Rightarrow> state \<Rightarrow> state" where
  "room_off_connected c s =
     s\<lparr>connected_listeners := filter (\<lambda>l. l \<noteq> c) (connected_listeners s)\<rparr>"

text \<open>\<^verbatim>\<open>onConnected\<close>, lines 120-123, and the timer's callback, lines 126-129: the same body.\<close>

definition onConnected :: "nat \<Rightarrow> state \<Rightarrow> state" where
  "onConnected c s = resolve_wait c (room_off_connected c s)"

definition on_timeout :: "nat \<Rightarrow> state \<Rightarrow> state" where
  "on_timeout c s = resolve_wait c (room_off_connected c s)"

text \<open>Lines 138-143: the microphone promise settles.\<close>

definition on_mic_resolved :: "nat \<Rightarrow> state \<Rightarrow> state" where
  "on_mic_resolved c s = (if in_phase c Enabling s then set_phase c Settled s else s)"

definition on_mic_rejected :: "nat \<Rightarrow> js_error \<Rightarrow> state \<Rightarrow> state" where
  "on_mic_rejected c micError s =
     (if \<not> in_phase c Enabling s then s
      else on_chain_error micError (set_phase c Settled s))"

subsection \<open>The handlers subscribed on the room (lines 20-41)\<close>

definition onDisconnected :: "state \<Rightarrow> state" where
  "onDisconnected s = s\<lparr>isSessionActive := False\<rparr>"

definition onMediaDevicesError :: "js_error \<Rightarrow> state \<Rightarrow> state" where
  "onMediaDevicesError error s =
     emit (ToastAlert ''Encountered an error with your media devices''
             (err_name error @ '': '' @ err_message error)) s"

definition onConnectionStateChanged :: "conn_state \<Rightarrow> state \<Rightarrow> state" where
  "onConnectionStateChanged st s =
     (if st = ''disconnected'' \<or> st = ''reconnecting'' then
        (if st = ''disconnected'' then s\<lparr>isSessionActive := False\<rparr> else s)
      else s)"

subsection \<open>The environment: room events and the timer queue\<close>

text \<open>
  The room emits \<^verbatim>\<open>RoomEvent.Connected\<close>: every \<^verbatim>\<open>onConnected\<close> registered at that moment runs,
  in the order of registration.
\<close>

definition emit_connected :: "state \<Rightarrow> state" where
  "emit_connected s = fold onConnected (connected_listeners s) s"

text \<open>
  The clock advances by \<open>d\<close> milliseconds. A timer runs when the clock reaches its deadline:
  the timers due by the new time leave the queue and their callbacks run, in the order in
  which they were set.
\<close>

definition elapse :: "nat \<Rightarrow> state \<Rightarrow> state" where
  "elapse d s =
     (let t = now s + d;
          due = filter (\<lambda>(c, deadline). deadline \<le> t) (timers s);
          s1 = s\<lparr>now := t, timers := filter (\<lambda>(c, deadline). \<not> deadline \<le> t) (timers s)\<rparr>
      in fold (\<lambda>(c, deadline). on_timeout c) due s1)"

subsection \<open>Events\<close>

text \<open>
  One event is one turn of the event loop. \<open>StartSession\<close>, \<open>EndSession\<close> and \<open>Dispose\<close> are
  the caller and React running the entry points and the cleanup. \<open>FetchSettled\<close>,
  \<open>ConnectResolved\<close>, \<open>ConnectRejected\<close>, \<open>MicResolved\<close> and \<open>MicRejected\<close> are the promise a chain
  waits on being settled; the continuation runs only when the chain is suspended on that very
  promise, so an event that names a chain in another phase, or no chain, changes nothing.
  \<open>EmitConnected\<close>, \<open>EmitDisconnected\<close>, \<open>EmitMediaDevicesError\<close> and
  \<open>EmitConnectionStateChanged\<close> are the room emitting an event to the subscribed handlers.
  \<open>RoomStateBecomes\<close> is the client library assigning \<^verbatim>\<open>room.state\<close>, and \<open>Elapse\<close> is time
  passing.

  A continuation that a settled promise releases runs before the next turn of the event loop,
  so the settlement and the continuation are one step. The three subscriptions of lines
  31-41 appear only through the events that run their handlers; their removal on unmount
  (lines 43-47) is not modelled.
\<close>

datatype event =
    StartSession
  | EndSession
  | Dispose
  | FetchSettled nat "js_error + connection_details"
  | ConnectResolved nat
  | ConnectRejected nat js_error
  | MicResolved nat
  | MicRejected nat js_error
  | EmitConnected
  | EmitDisconnected
  | EmitMediaDevicesError js_error
  | EmitConnectionStateChanged conn_state
  | RoomStateBecomes conn_state
  | Elapse nat

fun step :: "state \<Rightarrow> event \<Rightarrow> state" where
  "step s StartSession = startSession s"
| "step s EndSession = endSession s"
| "step s Dispose = dispose s"
| "step s (FetchSettled c r) = on_fetch_settled c r s"
| "step s (ConnectResolved c) = on_connect_resolved c s"
| "step s (ConnectRejected c e) = on_connect_rejected c e s"
| "step s (MicResolved c) = on_mic_resolved c s"
| "step s (MicRejected c e) = on_mic_rejected c e s"
| "step s EmitConnected = emit_connected s"
| "step s EmitDisconnected = onDisconnected s"
| "step s (EmitMediaDevicesError e) = onMediaDevicesError e s"
| "step s (EmitConnectionStateChanged st) = onConnectionStateChanged st s"
| "step s (RoomStateBecomes st) = s\<lparr>room_state := st\<rparr>"
| "step s (Elapse d) = elapse d s"

text \<open>A run of the controller: the events in the order in which they happen.\<close>

definition run :: "event list \<Rightarrow> state \<Rightarrow> state" where
  "run es s = foldl step s es"

section \<open>Observations on a run\<close>

text \<open>
  The calls in the effect log, sorted by kind: the \<^verbatim>\<open>setMicrophoneEnabled\<close> and the
  \<^verbatim>\<open>room.connect\<close> calls of one chain, and the notifications given to \<^verbatim>\<open>toastAlert\<close>.
\<close>

fun is_mic :: "nat \<Rightarrow> effect \<Rightarrow> bool" where
  "is_mic c (SetMicrophoneEnabled c' b) = (c' = c)"
| "is_mic c _ = False"

fun is_connect :: "nat \<Rightarrow> effect \<Rightarrow> bool" where
  "is_connect c (RoomConnect c' u t) = (c' = c)"
| "is_connect c _ = False"

fun is_toast :: "effect \<Rightarrow> bool" where
  "is_toast (ToastAlert t d) = True"
| "is_toast _ = False"

definition mic_calls :: "nat \<Rightarrow> state \<Rightarrow> effect list" where
  "mic_calls c s = filter (is_mic c) (effects s)"

definition connect_calls :: "nat \<Rightarrow> state \<Rightarrow> effect list" where
  "connect_calls c s = filter (is_connect c) (effects s)"

definition toasts :: "state \<Rightarrow> effect list" where
  "toasts s = filter is_toast (effects s)"

text \<open>The time that passes during a list of events.\<close>

fun elapsed :: "event list \<Rightarrow> nat" where
  "elapsed [] = 0"
| "elapsed (Elapse d # es) = d + elapsed es"
| "elapsed (e # es) = elapsed es"

text \<open>
  The events that run no callback of a post-connect wait: all but the \<^verbatim>\<open>Connected\<close> event
  and the passing of time.
\<close>

fun plain :: "event \<Rightarrow> bool" where
  "plain EmitConnected = False"
| "plain (Elapse d) = False"
| "plain _ = True"

text \<open>
  The events that run a piece of a startup chain: the settlement of one of its promises, the
  \<^verbatim>\<open>onConnected\<close> listener, the timer. After the disposal these are what can still run,
  together with the library changing \<^verbatim>\<open>room.state\<close>.
\<close>

fun is_continuation :: "event \<Rightarrow> bool" where
  "is_continuation (FetchSettled c r) = True"
| "is_continuation (ConnectResolved c) = True"
| "is_continuation (ConnectRejected c e) = True"
| "is_continuation (MicResolved c) = True"
| "is_continuation (MicRejected c e) = True"
| "is_continuation EmitConnected = True"
| "is_continuation (Elapse d) = True"
| "is_continuation _ = False"

fun still_running :: "event \<Rightarrow> bool" where
  "still_running (RoomStateBecomes st) = True"
| "still_running e = is_continuation e"

text \<open>The three ways a startup chain fails, each reaching the \<^verbatim>\<open>.catch\<close> handler.\<close>

definition chain_fails :: "nat \<Rightarrow> js_error \<Rightarrow> event \<Rightarrow> state \<Rightarrow> bool" where
  "chain_fails c err ev s =
     ((ev = FetchSettled c (Inl err) \<and> in_phase c Fetching s)
      \<or> (ev = ConnectRejected c err \<and> in_phase c Connecting s)
      \<or> (ev = MicRejected c err \<and> in_phase c Enabling s))"

text \<open>The chains whose timer is due when the clock advances by \<open>d\<close>.\<close>

definition due :: "nat \<Rightarrow> state \<Rightarrow> nat list" where
  "due d s = map fst (filter (\<lambda>(c, deadline). deadline \<le> now s + d) (timers s))"

text \<open>
  A chain in its post-connect wait: its listener is registered and its one timer, with
  deadline \<open>D\<close>, is pending. A chain past that wait: it is at the microphone or has settled,
  and its listener is gone.
\<close>

definition waiting_on :: "nat \<Rightarrow> nat \<Rightarrow> state \<Rightarrow> bool" where
  "waiting_on c D s =
     (in_phase c Waiting s \<and> c \<in> set (connected_listeners s) \<and> (c, D) \<in> set (timers s)
      \<and> (\<forall>dl. (c, dl) \<in> set (timers s) \<longrightarrow> dl = D) \<and> now s < D)"

definition released :: "nat \<Rightarrow> state \<Rightarrow> bool" where
  "released c s =
     (c < length (chains s) \<and> (phase (chains s ! c) = Enabling \<or> phase (chains s ! c) = Settled)
      \<and> c \<notin> set (connected_listeners s))"

text \<open>A chain that has left the credential fetch, and one that has left the wait.\<close>

definition past_fetch :: "nat \<Rightarrow> state \<Rightarrow> bool" where
  "past_fetch c s = (c < length (chains s) \<and> phase (chains s ! c) \<noteq> Fetching)"

definition past_wait :: "nat \<Rightarrow> state \<Rightarrow> bool" where
  "past_wait c s =
     (c < length (chains s) \<and> (phase (chains s ! c) = Enabling \<or> phase (chains s ! c) = Settled))"

text \<open>Only chains that have reached the wait have a listener or a timer.\<close>

definition registered_ok :: "state \<Rightarrow> bool" where
  "registered_ok s =
     (\<forall>c. c \<in> set (connected_listeners s) \<or> c \<in> fst ` set (timers s) \<longrightarrow>
          c < length (chains s) \<and> phase (chains s ! c) \<noteq> Fetching
          \<and> phase (chains s ! c) \<noteq> Connecting)"

text \<open>The states a mounted hook can be in: those a run reaches from a fresh one.\<close>

inductive reachable :: "state \<Rightarrow> bool" where
  reachable_init: "reachable (init cfg)"
| reachable_step: "reachable s \<Longrightarrow> reachable (step s e)"

text \<open>
  The calls that connect or disconnect the transport, \<^verbatim>\<open>room.connect\<close> and \<^verbatim>\<open>room.disconnect\<close>,
  in the order in which they are made.
\<close>

fun is_transport :: "effect \<Rightarrow> bool" where
  "is_transport (RoomConnect c u t) = True"
| "is_transport RoomDisconnect = True"
| "is_transport _ = False"

definition transport_calls :: "state \<Rightarrow> effect list" where
  "transport_calls s = filter is_transport (effects s)"

text \<open>No startup chain is still waiting for its credentials.\<close>

definition none_fetching :: "state \<Rightarrow> bool" where
  "none_fetching s = list_all (\<lambda>ch. phase ch \<noteq> Fetching) (chains s)"

text \<open>A state without its \<^verbatim>\<open>isSessionActive\<close>, which no function of the hook reads.\<close>

definition forget_active :: "state \<Rightarrow> state" where
  "forget_active s = s\<lparr>isSessionActive := False\<rparr>"

text \<open>A response of the credential endpoint that is not \<^verbatim>\<open>ok\<close>, with the given body.\<close>

definition failed_response :: "string \<Rightarrow> http_outcome" where
  "failed_response body =
     Responded \<lparr>res_ok = False, res_text = Inr body, res_json = Inl NotError\<rparr>"

text \<open>
  Concrete states for the examples: a configuration, the details a token source returns, and
  a hook whose first chain is fetching, waiting for \<^verbatim>\<open>room.connect\<close>, or done and connected.
\<close>

definition example_config :: app_config where
  "example_config = \<lparr>agentName = Some ''agent'', sandboxId = None, isPreConnectBufferEnabled = True\<rparr>"

definition example_details :: connection_details where
  "example_details = \<lparr>serverUrl = ''wss://example'', roomName = ''room'', participantToken = ''token''\<rparr>"

definition fetching_example :: state where
  "fetching_example = run [StartSession] (init example_config)"

definition connecting_example :: state where
  "connecting_example =
     run [StartSession, FetchSettled 0 (Inr example_details), RoomStateBecomes ''connecting'']
       (init example_config)"

definition connected_example :: state where
  "connected_example =
     run [StartSession, FetchSettled 0 (Inr example_details), RoomStateBecomes ''connected'',
          ConnectResolved 0, MicResolved 0] (init example_config)"

section \<open>Basic facts\<close>

lemmas op_defs = startSession_def endSession_def dispose_def on_chain_error_def
  on_fetch_settled_def enable_microphone_def on_connect_resolved_def on_connect_rejected_def
  resolve_wait_def room_off_connected_def onConnected_def on_timeout_def on_mic_resolved_def
  on_mic_rejected_def onDisconnected_def onMediaDevicesError_def onConnectionStateChanged_def
  emit_connected_def elapse_def emit_def set_phase_def in_phase_def

lemmas plain_defs = startSession_def endSession_def dispose_def on_chain_error_def
      on_fetch_settled_def enable_microphone_def on_connect_resolved_def on_connect_rejected_def
      on_mic_resolved_def on_mic_rejected_def onDisconnected_def onMediaDevicesError_def
      onConnectionStateChanged_def emit_connected_def emit_def set_phase_def Let_def

lemma run_Nil: "run [] s = s"
  by (simp add: run_def)

lemma run_Cons: "run (e # es) s = run es (step s e)"
  by (simp add: run_def)


lemma elapsed_Cons: "elapsed (e # es) = elapsed [e] + elapsed es"
  by (cases e) simp_all

lemma not_plain: "\<not> plain e \<Longrightarrow> e = EmitConnected \<or> (\<exists>d. e = Elapse d)"
  by (cases e) simp_all



lemma error_toast_kind [simp]:
  "\<not> is_mic c (error_toast e)" "\<not> is_connect c (error_toast e)" "is_toast (error_toast e)"
  by (simp_all add: error_toast_def)

lemma is_continuation_still: "is_continuation e \<Longrightarrow> still_running e"
  by (cases e) simp_all

subsection \<open>The example states\<close>

lemma fetching_example_eq:
  "fetching_example =
    \<lparr>aborted = False, isSessionActive = True, room_state = ''disconnected'',
     appConfig = example_config,
     chains = [\<lparr>phase = Fetching, preConnectBuffer = True\<rparr>],
     connected_listeners = [], timers = [], now = 0,
     effects = [TokenFetch 0 (Some ''agent'')]\<rparr>"
  by (simp add: fetching_example_def run_def init_def op_defs example_config_def)

lemma connecting_example_eq:
  "connecting_example =
    \<lparr>aborted = False, isSessionActive = True, room_state = ''connecting'',
     appConfig = example_config,
     chains = [\<lparr>phase = Connecting, preConnectBuffer = True\<rparr>],
     connected_listeners = [], timers = [], now = 0,
     effects = [TokenFetch 0 (Some ''agent''), RoomConnect 0 ''wss://example'' ''token'']\<rparr>"
  by (simp add: connecting_example_def run_def init_def op_defs example_config_def
        example_details_def)

lemma connected_example_eq:
  "connected_example =
    \<lparr>aborted = False, isSessionActive = True, room_state = ''connected'',
     appConfig = example_config,
     chains = [\<lparr>phase = Settled, preConnectBuffer = True\<rparr>],
     connected_listeners = [], timers = [], now = 0,
     effects = [TokenFetch 0 (Some ''agent''), RoomConnect 0 ''wss://example'' ''token'',
                SetMicrophoneEnabled 0 True]\<rparr>"
  by (simp add: connected_example_def run_def init_def op_defs example_config_def example_details_def)

subsection \<open>Strings\<close>

lemma includes_suffix: "str_includes (p @ b) b"
  by (simp add: str_includes_def)

lemma includes_nonempty: "str_includes m (x # xs) \<Longrightarrow> m \<noteq> []"
  by (auto simp: str_includes_def)

lemma unknown_error_plain:
  "\<not> str_includes ''Unknown error'' ''timeout''" "\<not> str_includes ''Unknown error'' ''signal''"
  by (simp_all add: str_includes_def sublist_Cons_right)

lemma empty_plain: "\<not> str_includes [] ''timeout''" "\<not> str_includes [] ''signal''"
  by (simp_all add: str_includes_def)

lemma displayed_guidance:
  "str_includes (err_message err) ''timeout'' \<or> str_includes (err_message err) ''signal'' \<Longrightarrow>
     displayed_message err = guidance"
  by (auto simp: displayed_message_def dest: includes_nonempty)

lemma displayed_plain:
  "err_message err \<noteq> [] \<Longrightarrow> \<not> str_includes (err_message err) ''timeout'' \<Longrightarrow>
   \<not> str_includes (err_message err) ''signal'' \<Longrightarrow> displayed_message err = err_message err"
  by (simp add: displayed_message_def)

lemma signal_error_displayed:
  "displayed_message \<lparr>err_name = ''ConnectionError'',
      err_message = ''could not establish signal connection''\<rparr> = guidance"
  by (rule displayed_guidance) (simp add: str_includes_def sublist_Cons_right)

lemma server_error_displayed:
  "displayed_message (new_Error ''Failed to get connection details: server error'') =
     ''Failed to get connection details: server error''"
  by (simp add: displayed_message_def new_Error_def Let_def str_includes_def sublist_Cons_right)

subsection \<open>The listener and the timer callback\<close>

lemma on_timeout_eq: "on_timeout c = onConnected c"
  by (rule ext) (simp add: on_timeout_def onConnected_def)

lemma fold_on_timeout: "fold (\<lambda>(c, deadline). on_timeout c) xs s = fold onConnected (map fst xs) s"
  by (induction xs arbitrary: s) (auto simp: on_timeout_eq)

lemma onConnected_frame [simp]:
  "aborted (onConnected c s) = aborted s"
  "isSessionActive (onConnected c s) = isSessionActive s"
  "room_state (onConnected c s) = room_state s"
  "appConfig (onConnected c s) = appConfig s"
  "timers (onConnected c s) = timers s"
  "now (onConnected c s) = now s"
  "length (chains (onConnected c s)) = length (chains s)"
  "connected_listeners (onConnected c s) = filter (\<lambda>l. l \<noteq> c) (connected_listeners s)"
  by (simp_all add: onConnected_def resolve_wait_def room_off_connected_def enable_microphone_def
        emit_def set_phase_def)

lemma onConnected_effects:
  "effects (onConnected c s) =
     effects s @ (if in_phase c Waiting s
                  then [SetMicrophoneEnabled c (preConnectBuffer (chains s ! c))] else [])"
  by (simp add: onConnected_def resolve_wait_def room_off_connected_def enable_microphone_def
        emit_def set_phase_def in_phase_def)

lemma onConnected_chain:
  "chains (onConnected c s) =
     (if in_phase c Waiting s then (chains s)[c := (chains s ! c)\<lparr>phase := Enabling\<rparr>]
      else chains s)"
  by (simp add: onConnected_def resolve_wait_def room_off_connected_def enable_microphone_def
        emit_def set_phase_def in_phase_def)

lemma fold_onConnected_frame [simp]:
  "aborted (fold onConnected cs s) = aborted s"
  "isSessionActive (fold onConnected cs s) = isSessionActive s"
  "room_state (fold onConnected cs s) = room_state s"
  "appConfig (fold onConnected cs s) = appConfig s"
  "timers (fold onConnected cs s) = timers s"
  "now (fold onConnected cs s) = now s"
  "length (chains (fold onConnected cs s)) = length (chains s)"
  by (induction cs arbitrary: s) simp_all

lemma fold_onConnected_listeners:
  "connected_listeners (fold onConnected cs s) =
     filter (\<lambda>l. l \<notin> set cs) (connected_listeners s)"
  by (induction cs arbitrary: s) (auto intro: filter_cong)

lemma fold_onConnected_toasts:
  "toasts (fold onConnected cs s) = toasts s"
  by (induction cs arbitrary: s) (simp_all add: toasts_def onConnected_effects)

lemma fold_onConnected_connects:
  "connect_calls c (fold onConnected cs s) = connect_calls c s"
  by (induction cs arbitrary: s) (simp_all add: connect_calls_def onConnected_effects)

lemma fold_onConnected_prefix:
  "prefix (effects s) (effects (fold onConnected cs s))"
proof (induction cs arbitrary: s)
  case Nil
  show ?case by simp
next
  case (Cons a cs)
  have "prefix (effects s) (effects (onConnected a s))"
    by (simp add: onConnected_effects)
  also have "prefix (effects (onConnected a s)) (effects (fold onConnected cs (onConnected a s)))"
    by (rule Cons.IH)
  finally show ?case by simp
qed

text \<open>What a round of callbacks does to one chain.\<close>

lemma fold_onConnected_chain:
  "c < length (chains s) \<Longrightarrow>
   chains (fold onConnected cs s) ! c =
     (if c \<in> set cs \<and> phase (chains s ! c) = Waiting
      then (chains s ! c)\<lparr>phase := Enabling\<rparr> else chains s ! c)"
proof (induction cs arbitrary: s)
  case Nil
  show ?case by simp
next
  case (Cons a cs)
  have len: "c < length (chains (onConnected a s))" using Cons.prems by simp
  show ?case
    using Cons.IH [OF len] Cons.prems
    by (auto simp: onConnected_chain in_phase_def nth_list_update)
qed

lemma fold_onConnected_mic:
  "c < length (chains s) \<Longrightarrow>
   mic_calls c (fold onConnected cs s) =
     mic_calls c s @
       (if c \<in> set cs \<and> phase (chains s ! c) = Waiting
        then [SetMicrophoneEnabled c (preConnectBuffer (chains s ! c))] else [])"
proof (induction cs arbitrary: s)
  case Nil
  show ?case by simp
next
  case (Cons a cs)
  have len: "c < length (chains (onConnected a s))" using Cons.prems by simp
  show ?case
    using Cons.IH [OF len] Cons.prems
    by (auto simp: mic_calls_def onConnected_chain onConnected_effects in_phase_def nth_list_update)
qed

lemma onConnected_mic_absent:
  "\<not> in_phase c Waiting s \<Longrightarrow>
     mic_calls c (onConnected a s) = mic_calls c s \<and> \<not> in_phase c Waiting (onConnected a s)"
  by (auto simp: mic_calls_def onConnected_effects onConnected_chain in_phase_def nth_list_update)

lemma fold_onConnected_mic_absent:
  "\<not> in_phase c Waiting s \<Longrightarrow> mic_calls c (fold onConnected cs s) = mic_calls c s"
proof (induction cs arbitrary: s)
  case Nil
  show ?case by simp
next
  case (Cons a cs)
  from onConnected_mic_absent [OF Cons.prems, of a] Cons.IH [of "onConnected a s"]
  show ?case by simp
qed

lemma onConnected_active:
  "onConnected c (s\<lparr>isSessionActive := b\<rparr>) = (onConnected c s)\<lparr>isSessionActive := b\<rparr>"
  by (simp add: onConnected_def resolve_wait_def room_off_connected_def enable_microphone_def
        emit_def set_phase_def in_phase_def)

lemma fold_onConnected_active:
  "fold onConnected cs (s\<lparr>isSessionActive := b\<rparr>) = (fold onConnected cs s)\<lparr>isSessionActive := b\<rparr>"
  by (induction cs arbitrary: s) (simp_all add: onConnected_active)

subsection \<open>The clock\<close>

lemma elapse_frame [simp]:
  "aborted (elapse d s) = aborted s"
  "isSessionActive (elapse d s) = isSessionActive s"
  "room_state (elapse d s) = room_state s"
  "appConfig (elapse d s) = appConfig s"
  "now (elapse d s) = now s + d"
  "length (chains (elapse d s)) = length (chains s)"
  "timers (elapse d s) = filter (\<lambda>(c, deadline). \<not> deadline \<le> now s + d) (timers s)"
  by (simp_all add: elapse_def Let_def fold_on_timeout)

lemma elapse_listeners:
  "connected_listeners (elapse d s) = filter (\<lambda>l. l \<notin> set (due d s)) (connected_listeners s)"
  by (simp add: elapse_def Let_def fold_on_timeout fold_onConnected_listeners due_def)

lemma elapse_chain:
  "c < length (chains s) \<Longrightarrow>
   chains (elapse d s) ! c =
     (if c \<in> set (due d s) \<and> phase (chains s ! c) = Waiting
      then (chains s ! c)\<lparr>phase := Enabling\<rparr> else chains s ! c)"
  by (simp add: elapse_def Let_def fold_on_timeout fold_onConnected_chain due_def)

lemma elapse_mic:
  "c < length (chains s) \<Longrightarrow>
   mic_calls c (elapse d s) =
     mic_calls c s @
       (if c \<in> set (due d s) \<and> phase (chains s ! c) = Waiting
        then [SetMicrophoneEnabled c (preConnectBuffer (chains s ! c))] else [])"
  using fold_onConnected_mic [of c "s\<lparr>now := now s + d,
      timers := filter (\<lambda>(c, deadline). \<not> deadline \<le> now s + d) (timers s)\<rparr>" "due d s"]
  by (simp add: elapse_def Let_def fold_on_timeout due_def mic_calls_def)

lemma elapse_mic_absent:
  "\<not> in_phase c Waiting s \<Longrightarrow> mic_calls c (elapse d s) = mic_calls c s"
  using fold_onConnected_mic_absent [of c "s\<lparr>now := now s + d,
      timers := filter (\<lambda>(c, deadline). \<not> deadline \<le> now s + d) (timers s)\<rparr>" "due d s"]
  by (simp add: elapse_def Let_def fold_on_timeout due_def mic_calls_def in_phase_def)

lemma elapse_toasts: "toasts (elapse d s) = toasts s"
  using fold_onConnected_toasts [of "due d s" "s\<lparr>now := now s + d,
      timers := filter (\<lambda>(c, deadline). \<not> deadline \<le> now s + d) (timers s)\<rparr>"]
  by (simp add: elapse_def Let_def fold_on_timeout due_def toasts_def)

lemma elapse_connects: "connect_calls c (elapse d s) = connect_calls c s"
  using fold_onConnected_connects [of c "due d s" "s\<lparr>now := now s + d,
      timers := filter (\<lambda>(c, deadline). \<not> deadline \<le> now s + d) (timers s)\<rparr>"]
  by (simp add: elapse_def Let_def fold_on_timeout due_def connect_calls_def)

lemma elapse_prefix: "prefix (effects s) (effects (elapse d s))"
  using fold_onConnected_prefix [of "s\<lparr>now := now s + d,
      timers := filter (\<lambda>(c, deadline). \<not> deadline \<le> now s + d) (timers s)\<rparr>" "due d s"]
  by (simp add: elapse_def Let_def fold_on_timeout due_def)

lemma elapse_active:
  "elapse d (s\<lparr>isSessionActive := b\<rparr>) = (elapse d s)\<lparr>isSessionActive := b\<rparr>"
proof -
  let ?t = "now s + d"
  let ?rest = "filter (\<lambda>(c, deadline). \<not> deadline \<le> ?t) (timers s)"
  have sw: "(s\<lparr>isSessionActive := b\<rparr>)\<lparr>now := ?t, timers := ?rest\<rparr> =
            (s\<lparr>now := ?t, timers := ?rest\<rparr>)\<lparr>isSessionActive := b\<rparr>"
    by (cases s) simp
  have "elapse d (s\<lparr>isSessionActive := b\<rparr>) =
          fold onConnected (due d s) ((s\<lparr>isSessionActive := b\<rparr>)\<lparr>now := ?t, timers := ?rest\<rparr>)"
    by (simp add: elapse_def Let_def fold_on_timeout due_def)
  also have "\<dots> = (fold onConnected (due d s) (s\<lparr>now := ?t, timers := ?rest\<rparr>))\<lparr>isSessionActive := b\<rparr>"
    unfolding sw by (rule fold_onConnected_active)
  also have "\<dots> = (elapse d s)\<lparr>isSessionActive := b\<rparr>"
    by (simp add: elapse_def Let_def fold_on_timeout due_def)
  finally show ?thesis .
qed

subsection \<open>Single steps\<close>

lemma startSession_elsewhere:
  "room_state s \<noteq> ''disconnected'' \<Longrightarrow> startSession s = s\<lparr>isSessionActive := True\<rparr>"
  by (simp add: startSession_def)

lemma on_chain_error_aborted: "aborted s \<Longrightarrow> on_chain_error e s = s"
  by (simp add: on_chain_error_def)

lemma on_chain_error_live:
  assumes "\<not> aborted s"
  shows "effects (on_chain_error err s) =
           effects s @ (if room_state s \<noteq> ''disconnected'' then [RoomDisconnect] else [])
             @ [error_toast err]"
    and "\<not> isSessionActive (on_chain_error err s)"
    and "chains (on_chain_error err s) = chains s"
    and "aborted (on_chain_error err s) = aborted s"
  using assms by (simp_all add: on_chain_error_def emit_def)

lemma step_now: "now (step s e) = now s + elapsed [e]"
  by (cases e) (simp_all add: plain_defs split: sum.splits)

lemma run_now: "now (run es s) = now s + elapsed es"
proof (induction es arbitrary: s)
  case Nil
  show ?case by (simp add: run_Nil)
next
  case (Cons e es)
  have "now (run (e # es) s) = now (step s e) + elapsed es"
    unfolding run_Cons by (rule Cons.IH)
  also have "\<dots> = now s + elapsed [e] + elapsed es" by (simp only: step_now)
  also have "\<dots> = now s + elapsed (e # es)" using elapsed_Cons [of e es] by simp
  finally show ?case .
qed

lemma step_aborted: "aborted s \<Longrightarrow> aborted (step s e)"
  by (cases e) (simp_all add: plain_defs
      split: sum.splits)

lemma step_prefix: "prefix (effects s) (effects (step s e))"
  by (cases e) (simp_all add: plain_defs
      fold_onConnected_prefix elapse_prefix
      split: sum.splits)

lemma run_prefix: "prefix (effects s) (effects (run es s))"
proof (induction es arbitrary: s)
  case Nil
  show ?case by (simp add: run_def)
next
  case (Cons e es)
  have "prefix (effects s) (effects (step s e))" by (rule step_prefix)
  also have "prefix (effects (step s e)) (effects (run es (step s e)))" by (rule Cons.IH)
  finally show ?case by (simp add: run_def)
qed

lemma plain_step_frame:
  assumes "plain e"
  shows "now (step s e) = now s"
    and "length (chains s) \<le> length (chains (step s e))"
  using assms by (cases e; simp add: plain_defs split: sum.splits)+

lemma plain_step_chain:
  assumes "plain e" "c < length (chains s)"
    and "phase (chains s ! c) = Waiting \<or> phase (chains s ! c) = Enabling \<or> phase (chains s ! c) = Settled"
  shows "mic_calls c (step s e) = mic_calls c s"
  using assms by (cases e; simp add: plain_defs mic_calls_def in_phase_def split: sum.splits; fastforce)

lemma plain_step_waiting:
  assumes "plain e" "in_phase c Waiting s"
  shows "chains (step s e) ! c = chains s ! c"
  using assms by (cases e) (auto simp: plain_defs in_phase_def nth_append nth_list_update split: sum.splits)

lemma plain_step_past:
  assumes "plain e" "c < length (chains s)"
    and "phase (chains s ! c) = Enabling \<or> phase (chains s ! c) = Settled"
  shows "phase (chains (step s e) ! c) = Enabling \<or> phase (chains (step s e) ! c) = Settled"
  using assms
  by (cases e; simp add: plain_defs in_phase_def nth_append nth_list_update split: sum.splits; fastforce)

lemma plain_step_listeners:
  assumes "plain e" "c < length (chains s)" "phase (chains s ! c) \<noteq> Connecting"
  shows "c \<in> set (connected_listeners (step s e)) \<longleftrightarrow> c \<in> set (connected_listeners s)"
  using assms by (cases e; simp add: plain_defs in_phase_def split: sum.splits; fastforce)

lemma plain_step_timers:
  assumes "plain e" "c < length (chains s)" "phase (chains s ! c) \<noteq> Connecting"
  shows "(c, dl) \<in> set (timers (step s e)) \<longleftrightarrow> (c, dl) \<in> set (timers s)"
  using assms by (cases e; simp add: plain_defs in_phase_def split: sum.splits; fastforce)

subsection \<open>After the disposal\<close>

lemma aborted_step_quiet:
  "aborted s \<Longrightarrow> still_running e \<Longrightarrow>
     isSessionActive (step s e) = isSessionActive s \<and> toasts (step s e) = toasts s"
  by (cases e) (simp_all add: plain_defs toasts_def fold_onConnected_toasts [unfolded toasts_def]
       elapse_toasts [unfolded toasts_def] split: sum.splits)

lemma aborted_run_still:
  "aborted s \<Longrightarrow> list_all still_running es \<Longrightarrow>
     isSessionActive (run es s) = isSessionActive s \<and> toasts (run es s) = toasts s
     \<and> aborted (run es s)"
proof (induction es arbitrary: s)
  case Nil
  then show ?case by (simp add: run_Nil)
next
  case (Cons e es)
  have a: "aborted (step s e)" using Cons.prems(1) by (rule step_aborted)
  have q: "isSessionActive (step s e) = isSessionActive s \<and> toasts (step s e) = toasts s"
    using Cons.prems by (simp add: aborted_step_quiet)
  have "list_all still_running es" using Cons.prems by simp
  from Cons.IH [OF a this] q show ?case by (simp add: run_Cons)
qed

text \<open>
  After the disposal, a chain that has its credentials makes no further call that connects or
  disconnects the transport.
\<close>

lemma none_fetchingD: "none_fetching s \<Longrightarrow> c < length (chains s) \<Longrightarrow> phase (chains s ! c) \<noteq> Fetching"
  by (simp add: none_fetching_def list_all_length)

lemma none_fetchingI:
  "(\<And>c. c < length (chains s) \<Longrightarrow> phase (chains s ! c) \<noteq> Fetching) \<Longrightarrow> none_fetching s"
  by (simp add: none_fetching_def list_all_length)

lemma fold_onConnected_transport:
  "transport_calls (fold onConnected cs s) = transport_calls s"
  by (induction cs arbitrary: s) (simp_all add: transport_calls_def onConnected_effects)

lemma elapse_transport: "transport_calls (elapse d s) = transport_calls s"
  using fold_onConnected_transport [of "due d s" "s\<lparr>now := now s + d,
      timers := filter (\<lambda>(c, deadline). \<not> deadline \<le> now s + d) (timers s)\<rparr>"]
  by (simp add: elapse_def Let_def fold_on_timeout due_def transport_calls_def)

lemma fold_onConnected_none_fetching:
  assumes "none_fetching s"
  shows "none_fetching (fold onConnected cs s)"
proof (rule none_fetchingI)
  fix c assume "c < length (chains (fold onConnected cs s))"
  then have len: "c < length (chains s)" by simp
  from none_fetchingD [OF assms len] fold_onConnected_chain [OF len, of cs]
  show "phase (chains (fold onConnected cs s) ! c) \<noteq> Fetching" by auto
qed

lemma elapse_none_fetching:
  assumes "none_fetching s"
  shows "none_fetching (elapse d s)"
proof (rule none_fetchingI)
  fix c assume "c < length (chains (elapse d s))"
  then have len: "c < length (chains s)" by simp
  from none_fetchingD [OF assms len] elapse_chain [OF len, of d]
  show "phase (chains (elapse d s) ! c) \<noteq> Fetching" by auto
qed

lemma set_phase_none_fetching:
  "none_fetching s \<Longrightarrow> p \<noteq> Fetching \<Longrightarrow> none_fetching (set_phase c p s)"
proof (cases "c < length (chains s)")
  case True
  assume "none_fetching s" "p \<noteq> Fetching"
  with True show ?thesis
    by (auto simp: none_fetching_def set_phase_def list_all_length nth_list_update)
next
  case False
  assume "none_fetching s"
  moreover have "(chains s)[c := (chains s ! c)\<lparr>phase := p\<rparr>] = chains s"
    using False by (intro list_update_beyond) simp
  ultimately show ?thesis by (simp add: none_fetching_def set_phase_def)
qed

lemma aborted_step_transport:
  assumes a: "aborted s" and n: "none_fetching s" and r: "still_running e"
  shows "none_fetching (step s e) \<and> transport_calls (step s e) = transport_calls s"
proof (cases "plain e")
  case True
  have nf: "\<not> in_phase c Fetching s" for c
    using none_fetchingD [OF n, of c] by (auto simp: in_phase_def)
  have sp: "none_fetching (set_phase c p s)" if "p \<noteq> Fetching" for c p
    using n that by (rule set_phase_none_fetching)
  have ab: "aborted (set_phase c p s)" for c p using a by (simp add: set_phase_def)
  have tr: "transport_calls (set_phase c p s) = transport_calls s" for c p
    by (simp add: transport_calls_def set_phase_def)
  show ?thesis
  proof (cases e)
    case (FetchSettled c res)
    then show ?thesis using n nf by (simp add: on_fetch_settled_def)
  next
    case (ConnectResolved c)
    have w: "none_fetching ((set_phase c Waiting s)
          \<lparr>connected_listeners := connected_listeners s @ [c],
           timers := timers s @ [(c, now s + 5000)]\<rparr>)"
      using sp [of Waiting c] by (simp add: none_fetching_def)
    have m: "none_fetching (enable_microphone c s)"
      using sp [of Enabling c] by (simp add: none_fetching_def enable_microphone_def emit_def)
    show ?thesis using ConnectResolved n w m
      by (simp add: on_connect_resolved_def transport_calls_def enable_microphone_def emit_def
            set_phase_def)
  next
    case (ConnectRejected c err)
    then show ?thesis using n sp [of Settled c] tr [of c Settled] ab [of c Settled]
      by (simp add: on_connect_rejected_def on_chain_error_aborted)
  next
    case (MicResolved c)
    then show ?thesis using n sp [of Settled c] tr [of c Settled]
      by (simp add: on_mic_resolved_def)
  next
    case (MicRejected c err)
    then show ?thesis using n sp [of Settled c] tr [of c Settled] ab [of c Settled]
      by (simp add: on_mic_rejected_def on_chain_error_aborted)
  next
    case (RoomStateBecomes st)
    then show ?thesis using n by (simp add: none_fetching_def transport_calls_def)
  qed (use r True in simp_all)
next
  case False
  then consider "e = EmitConnected" | d where "e = Elapse d" using not_plain by blast
  then show ?thesis
  proof cases
    case 1
    then show ?thesis using n
      by (simp add: emit_connected_def fold_onConnected_none_fetching fold_onConnected_transport)
  next
    case 2
    then show ?thesis using n by (simp add: elapse_none_fetching elapse_transport)
  qed
qed

lemma aborted_run_transport:
  "aborted s \<Longrightarrow> none_fetching s \<Longrightarrow> list_all still_running es \<Longrightarrow>
     transport_calls (run es s) = transport_calls s"
proof (induction es arbitrary: s)
  case Nil
  show ?case by (simp add: run_Nil)
next
  case (Cons e es)
  have r: "still_running e" and rest: "list_all still_running es" using Cons.prems(3) by simp_all
  note st = aborted_step_transport [OF Cons.prems(1,2) r]
  have a: "aborted (step s e)" using Cons.prems(1) by (rule step_aborted)
  from Cons.IH [OF a conjunct1 [OF st] rest] st show ?case by (simp add: run_Cons)
qed

subsection \<open>A failing chain\<close>

lemma fetch_non_ok:
  "\<not> res_ok res \<Longrightarrow> res_text res = Inr body \<Longrightarrow>
     tokenSource (Responded res) =
       Inl (new_Error (''Failed to get connection details: '' @ body))"
  by (simp add: tokenSource_def fetch_try_def)

lemma chain_fails_step:
  assumes "chain_fails c err ev s"
  shows "step s ev = on_chain_error err (set_phase c Settled s)"
  using assms
  by (auto simp: chain_fails_def on_fetch_settled_def on_connect_rejected_def on_mic_rejected_def)

lemma chain_fails_result:
  assumes "\<not> aborted s" and "chain_fails c err ev s"
  shows "effects (step s ev) =
           effects s @ (if room_state s \<noteq> ''disconnected'' then [RoomDisconnect] else [])
             @ [error_toast err]"
    and "toasts (step s ev) = toasts s @ [error_toast err]"
    and "\<not> isSessionActive (step s ev)"
    and "in_phase c Settled (step s ev)"
    and "connect_calls c (step s ev) = connect_calls c s"
proof -
  have na: "\<not> aborted (set_phase c Settled s)" using assms(1) by (simp add: set_phase_def)
  have len: "c < length (chains s)" using assms(2) by (auto simp: chain_fails_def in_phase_def)
  note st = chain_fails_step [OF assms(2)]
  note l = on_chain_error_live [OF na, of err]
  show e: "effects (step s ev) =
           effects s @ (if room_state s \<noteq> ''disconnected'' then [RoomDisconnect] else [])
             @ [error_toast err]"
    unfolding st l(1) by (simp add: set_phase_def)
  show "toasts (step s ev) = toasts s @ [error_toast err]"
    unfolding toasts_def e by simp
  show "\<not> isSessionActive (step s ev)" unfolding st by (rule l(2))
  show "in_phase c Settled (step s ev)"
    unfolding st using len by (simp add: in_phase_def l(3)) (simp add: set_phase_def)
  show "connect_calls c (step s ev) = connect_calls c s"
    unfolding connect_calls_def e by simp
qed

subsection \<open>The post-connect wait\<close>

lemma waiting_onI:
  "in_phase c Waiting s \<Longrightarrow> c \<in> set (connected_listeners s) \<Longrightarrow> (c, D) \<in> set (timers s) \<Longrightarrow>
   (\<And>dl. (c, dl) \<in> set (timers s) \<Longrightarrow> dl = D) \<Longrightarrow> now s < D \<Longrightarrow> waiting_on c D s"
  unfolding waiting_on_def by blast

lemma waiting_onD:
  assumes "waiting_on c D s"
  shows "in_phase c Waiting s" "c \<in> set (connected_listeners s)" "(c, D) \<in> set (timers s)"
    "\<And>dl. (c, dl) \<in> set (timers s) \<Longrightarrow> dl = D" "now s < D"
  using assms unfolding waiting_on_def by blast+

lemma waiting_not_due:
  assumes w: "waiting_on c D s" and t: "now s + d < D"
  shows "c \<notin> set (due d s)"
proof
  assume "c \<in> set (due d s)"
  then obtain dl where m: "(c, dl) \<in> set (timers s)" and dl: "dl \<le> now s + d"
    by (auto simp: due_def)
  from m have "dl = D" by (rule waiting_onD(4) [OF w])
  with dl t show False by simp
qed

lemma waiting_due:
  assumes w: "waiting_on c D s" and t: "D \<le> now s + d"
  shows "c \<in> set (due d s)"
proof -
  have "(c, D) \<in> set (filter (\<lambda>(c, deadline). deadline \<le> now s + d) (timers s))"
    using waiting_onD(3) [OF w] t by simp
  then have "fst (c, D) \<in> set (due d s)" unfolding due_def set_map by (rule imageI)
  then show ?thesis by simp
qed

lemma waiting_plain:
  assumes w: "waiting_on c D s" and p: "plain e"
  shows "waiting_on c D (step s e) \<and> chains (step s e) ! c = chains s ! c
         \<and> mic_calls c (step s e) = mic_calls c s"
proof -
  note wd = waiting_onD [OF w]
  have len: "c < length (chains s)" and pw: "phase (chains s ! c) = Waiting"
    using wd(1) by (simp_all add: in_phase_def)
  have nc: "phase (chains s ! c) \<noteq> Connecting" using pw by simp
  have ch: "chains (step s e) ! c = chains s ! c" using p wd(1) by (rule plain_step_waiting)
  have len': "c < length (chains (step s e))"
    using plain_step_frame(2) [OF p, of s] len by simp
  have mic: "mic_calls c (step s e) = mic_calls c s"
    using plain_step_chain [OF p len] pw by simp
  have tm: "\<And>dl. (c, dl) \<in> set (timers (step s e)) \<longleftrightarrow> (c, dl) \<in> set (timers s)"
    by (rule plain_step_timers [OF p len nc])
  have "waiting_on c D (step s e)"
  proof (rule waiting_onI)
    show "in_phase c Waiting (step s e)" using len' ch pw by (simp add: in_phase_def)
    show "c \<in> set (connected_listeners (step s e))"
      using plain_step_listeners [OF p len nc] wd(2) by simp
    show "(c, D) \<in> set (timers (step s e))" using tm wd(3) by simp
    show "\<And>dl. (c, dl) \<in> set (timers (step s e)) \<Longrightarrow> dl = D" using tm wd(4) by blast
    show "now (step s e) < D" using plain_step_frame(1) [OF p, of s] wd(5) by simp
  qed
  with ch mic show ?thesis by simp
qed

lemma waiting_elapse:
  assumes w: "waiting_on c D s" and t: "now s + d < D"
  shows "waiting_on c D (step s (Elapse d)) \<and> chains (step s (Elapse d)) ! c = chains s ! c
         \<and> mic_calls c (step s (Elapse d)) = mic_calls c s"
proof -
  note wd = waiting_onD [OF w]
  have nd: "c \<notin> set (due d s)" using w t by (rule waiting_not_due)
  have len: "c < length (chains s)" and pw: "phase (chains s ! c) = Waiting"
    using wd(1) by (simp_all add: in_phase_def)
  have ch: "chains (elapse d s) ! c = chains s ! c" using nd len by (simp add: elapse_chain)
  have mic: "mic_calls c (elapse d s) = mic_calls c s" using nd len by (simp add: elapse_mic)
  have "waiting_on c D (elapse d s)"
  proof (rule waiting_onI)
    show "in_phase c Waiting (elapse d s)" using len ch pw by (simp add: in_phase_def)
    show "c \<in> set (connected_listeners (elapse d s))"
      using wd(2) nd by (simp add: elapse_listeners)
    show "(c, D) \<in> set (timers (elapse d s))" using wd(3) t by simp
    show "dl = D" if "(c, dl) \<in> set (timers (elapse d s))" for dl
    proof -
      from that have "(c, dl) \<in> set (timers s)" by simp
      then show ?thesis by (rule wd(4))
    qed
    show "now (elapse d s) < D" using t by simp
  qed
  with ch mic show ?thesis by simp
qed

lemma waiting_step:
  assumes w: "waiting_on c D s" and e: "e \<noteq> EmitConnected"
    and t: "now s + elapsed [e] < D"
  shows "waiting_on c D (step s e) \<and> chains (step s e) ! c = chains s ! c
         \<and> mic_calls c (step s e) = mic_calls c s"
proof (cases "plain e")
  case True
  with w show ?thesis by (rule waiting_plain)
next
  case False
  with e obtain d where d: "e = Elapse d" using not_plain by blast
  with t have "now s + d < D" by simp
  from waiting_elapse [OF w this] d show ?thesis by simp
qed

lemma waiting_fires:
  assumes w: "waiting_on c D s" and t: "D \<le> now s + d"
  shows "released c (step s (Elapse d))
         \<and> c \<notin> fst ` set (timers (step s (Elapse d)))
         \<and> in_phase c Enabling (step s (Elapse d))
         \<and> mic_calls c (step s (Elapse d)) =
             mic_calls c s @ [SetMicrophoneEnabled c (preConnectBuffer (chains s ! c))]"
proof -
  have du: "c \<in> set (due d s)" using w t by (rule waiting_due)
  note wd = waiting_onD [OF w]
  have len: "c < length (chains s)" and pw: "phase (chains s ! c) = Waiting"
    using wd(1) by (simp_all add: in_phase_def)
  have ch: "chains (elapse d s) ! c = (chains s ! c)\<lparr>phase := Enabling\<rparr>"
    using du len pw by (simp add: elapse_chain)
  have mic: "mic_calls c (elapse d s) =
      mic_calls c s @ [SetMicrophoneEnabled c (preConnectBuffer (chains s ! c))]"
    using du len pw by (simp add: elapse_mic)
  have li: "c \<notin> set (connected_listeners (elapse d s))"
    using du by (simp add: elapse_listeners)
  have ti: "c \<notin> fst ` set (timers (elapse d s))"
  proof
    assume "c \<in> fst ` set (timers (elapse d s))"
    then obtain dl where m: "(c, dl) \<in> set (timers (elapse d s))" by force
    then have "(c, dl) \<in> set (timers s)" by simp
    then have "dl = D" by (rule wd(4))
    with m t show False by simp
  qed
  show ?thesis using ch mic li ti len by (simp add: released_def in_phase_def)
qed


lemma released_step:
  assumes r: "released c s"
  shows "released c (step s e) \<and> mic_calls c (step s e) = mic_calls c s"
proof -
  have len: "c < length (chains s)"
    and ph: "phase (chains s ! c) = Enabling \<or> phase (chains s ! c) = Settled"
    and li: "c \<notin> set (connected_listeners s)"
    using r by (simp_all add: released_def)
  have nw: "phase (chains s ! c) \<noteq> Waiting" and nc: "phase (chains s ! c) \<noteq> Connecting"
    using ph by auto
  show ?thesis
  proof (cases "plain e")
    case True
    have len': "c < length (chains (step s e))"
      using plain_step_frame(2) [OF True, of s] len by simp
    have "mic_calls c (step s e) = mic_calls c s"
      using plain_step_chain [OF True len] ph by simp
    then show ?thesis
      using len' plain_step_past [OF True len ph] plain_step_listeners [OF True len nc] li
      by (simp add: released_def)
  next
    case False
    then consider "e = EmitConnected" | d where "e = Elapse d" using not_plain by blast
    then show ?thesis
    proof cases
      case 1
      then show ?thesis
        using len ph li nw
        by (simp add: released_def emit_connected_def
            fold_onConnected_chain fold_onConnected_mic fold_onConnected_listeners)
    next
      case 2
      then show ?thesis
        using len ph li nw
        by (simp add: released_def elapse_chain elapse_mic elapse_listeners)
    qed
  qed
qed

lemma released_run:
  "released c s \<Longrightarrow> released c (run es s) \<and> mic_calls c (run es s) = mic_calls c s"
proof (induction es arbitrary: s)
  case Nil
  then show ?case by (simp add: run_def)
next
  case (Cons e es)
  from released_step [OF Cons.prems, of e] Cons.IH [of "step s e"]
  show ?case by (simp add: run_def)
qed

lemma waiting_run_before:
  "waiting_on c D s \<Longrightarrow> list_all (\<lambda>e. e \<noteq> EmitConnected) es \<Longrightarrow> now s + elapsed es < D \<Longrightarrow>
     waiting_on c D (run es s) \<and> chains (run es s) ! c = chains s ! c
     \<and> mic_calls c (run es s) = mic_calls c s"
proof (induction es arbitrary: s)
  case Nil
  then show ?case by (simp add: run_Nil)
next
  case (Cons e es)
  have ne: "e \<noteq> EmitConnected" and rest: "list_all (\<lambda>e. e \<noteq> EmitConnected) es"
    using Cons.prems(2) by simp_all
  have t: "now s + elapsed [e] + elapsed es < D"
    using Cons.prems(3) elapsed_Cons [of e es] by simp
  then have t1: "now s + elapsed [e] < D" by simp
  note st = waiting_step [OF Cons.prems(1) ne t1]
  have "now (step s e) + elapsed es < D" using t by (simp add: step_now)
  from Cons.IH [OF conjunct1 [OF st] rest this] st
  show ?case by (simp add: run_Cons)
qed

lemma waiting_run_after:
  "waiting_on c D s \<Longrightarrow> list_all (\<lambda>e. e \<noteq> EmitConnected) es \<Longrightarrow> D \<le> now s + elapsed es \<Longrightarrow>
     released c (run es s)
     \<and> mic_calls c (run es s) =
         mic_calls c s @ [SetMicrophoneEnabled c (preConnectBuffer (chains s ! c))]"
proof (induction es arbitrary: s)
  case Nil
  then show ?case using waiting_onD(5) [of c D s] by simp
next
  case (Cons e es)
  have ne: "e \<noteq> EmitConnected" and rest: "list_all (\<lambda>e. e \<noteq> EmitConnected) es"
    using Cons.prems(2) by simp_all
  show ?case
  proof (cases "now s + elapsed [e] < D")
    case True
    note st = waiting_step [OF Cons.prems(1) ne True]
    have "D \<le> now (step s e) + elapsed es"
      using Cons.prems(3) elapsed_Cons [of e es] by (simp add: step_now)
    from Cons.IH [OF conjunct1 [OF st] rest this] st
    show ?thesis by (simp add: run_Cons)
  next
    case False
    then have "elapsed [e] \<noteq> 0" using waiting_onD(5) [OF Cons.prems(1)] by auto
    then obtain d where d: "e = Elapse d" by (cases e) simp_all
    with False have "D \<le> now s + d" by simp
    note f = waiting_fires [OF Cons.prems(1) this]
    from released_run [OF conjunct1 [OF f], of es] f d
    show ?thesis by (simp add: run_Cons)
  qed
qed

subsection \<open>Invariants of reachable states\<close>

lemma reachable_run: "reachable s \<Longrightarrow> reachable (run es s)"
  by (induction es arbitrary: s) (simp_all add: run_Nil run_Cons reachable_step)

lemma registered_ok_plain:
  assumes "registered_ok s" "plain e"
  shows "registered_ok (step s e)"
  using assms unfolding registered_ok_def
  by (cases e) (auto simp: plain_defs in_phase_def nth_append nth_list_update split: sum.splits)

lemma registered_ok_callbacks:
  assumes ok: "registered_ok s"
    and len: "length (chains s') = length (chains s)"
    and li: "set (connected_listeners s') \<subseteq> set (connected_listeners s)"
    and ti: "set (timers s') \<subseteq> set (timers s)"
    and ch: "\<And>c. c < length (chains s) \<Longrightarrow>
               chains s' ! c = chains s ! c \<or> chains s' ! c = (chains s ! c)\<lparr>phase := Enabling\<rparr>"
  shows "registered_ok s'"
  unfolding registered_ok_def
proof (intro allI impI)
  fix c
  assume "c \<in> set (connected_listeners s') \<or> c \<in> fst ` set (timers s')"
  then have "c \<in> set (connected_listeners s) \<or> c \<in> fst ` set (timers s)"
    using li ti by auto
  then have c: "c < length (chains s)" "phase (chains s ! c) \<noteq> Fetching"
    "phase (chains s ! c) \<noteq> Connecting"
    using ok unfolding registered_ok_def by blast+
  from ch [OF c(1)] c len
  show "c < length (chains s') \<and> phase (chains s' ! c) \<noteq> Fetching
        \<and> phase (chains s' ! c) \<noteq> Connecting"
    by auto
qed

lemma registered_ok_step:
  assumes ok: "registered_ok s"
  shows "registered_ok (step s e)"
proof (cases "plain e")
  case True
  with ok show ?thesis by (rule registered_ok_plain)
next
  case False
  then consider "e = EmitConnected" | d where "e = Elapse d" using not_plain by blast
  then show ?thesis
  proof cases
    case 1
    show ?thesis unfolding 1
      by (rule registered_ok_callbacks [OF ok])
         (auto simp: emit_connected_def fold_onConnected_listeners fold_onConnected_chain)
  next
    case 2
    show ?thesis unfolding 2
      by (rule registered_ok_callbacks [OF ok])
         (auto simp: elapse_listeners elapse_chain)
  qed
qed

lemma reachable_registered_ok: "reachable s \<Longrightarrow> registered_ok s"
proof (induction rule: reachable.induct)
  case (reachable_init cfg)
  show ?case by (simp add: registered_ok_def init_def)
next
  case (reachable_step s e)
  then show ?case by (simp add: registered_ok_step)
qed

lemma reachable_fresh:
  assumes "reachable s" "in_phase c Connecting s"
  shows "c \<notin> set (connected_listeners s)" "c \<notin> fst ` set (timers s)"
  using reachable_registered_ok [OF assms(1)] assms(2)
  unfolding registered_ok_def in_phase_def by blast+

lemma connect_resolved_waits:
  assumes r: "reachable s" and p: "in_phase c Connecting s" and n: "room_state s \<noteq> ''connected''"
  shows "waiting_on c (now s + 5000) (step s (ConnectResolved c))"
    and "effects (step s (ConnectResolved c)) = effects s"
    and "connected_listeners (step s (ConnectResolved c)) = connected_listeners s @ [c]"
    and "timers (step s (ConnectResolved c)) = timers s @ [(c, now s + 5000)]"
    and "preConnectBuffer (chains (step s (ConnectResolved c)) ! c) = preConnectBuffer (chains s ! c)"
proof -
  note f = reachable_fresh [OF r p]
  have eq: "on_connect_resolved c s =
      (set_phase c Waiting s)\<lparr>connected_listeners := connected_listeners s @ [c],
           timers := timers s @ [(c, now s + 5000)]\<rparr>"
    using p n by (simp add: on_connect_resolved_def)
  show "waiting_on c (now s + 5000) (step s (ConnectResolved c))"
  proof (rule waiting_onI)
    show "in_phase c Waiting (step s (ConnectResolved c))"
      using p by (simp add: eq in_phase_def set_phase_def)
    show "c \<in> set (connected_listeners (step s (ConnectResolved c)))" by (simp add: eq)
    show "(c, now s + 5000) \<in> set (timers (step s (ConnectResolved c)))" by (simp add: eq)
    show "dl = now s + 5000" if "(c, dl) \<in> set (timers (step s (ConnectResolved c)))" for dl
      using that f(2) by (force simp: eq set_phase_def)
    show "now (step s (ConnectResolved c)) < now s + 5000" by (simp add: eq set_phase_def)
  qed
  show "effects (step s (ConnectResolved c)) = effects s" by (simp add: eq set_phase_def)
  show "connected_listeners (step s (ConnectResolved c)) = connected_listeners s @ [c]"
    by (simp add: eq)
  show "timers (step s (ConnectResolved c)) = timers s @ [(c, now s + 5000)]" by (simp add: eq)
  show "preConnectBuffer (chains (step s (ConnectResolved c)) ! c) = preConnectBuffer (chains s ! c)"
    using p by (simp add: eq set_phase_def in_phase_def)
qed

text \<open>A chain past its fetch never calls \<^verbatim>\<open>room.connect\<close> (again).\<close>

lemma past_fetch_step:
  assumes "past_fetch c s"
  shows "past_fetch c (step s e) \<and> connect_calls c (step s e) = connect_calls c s"
proof (cases "plain e")
  case True
  with assms show ?thesis
    unfolding past_fetch_def
    by (cases e) (auto simp: plain_defs connect_calls_def in_phase_def nth_append nth_list_update
          split: sum.splits)
next
  case False
  then consider "e = EmitConnected" | d where "e = Elapse d" using not_plain by blast
  then show ?thesis
  proof cases
    case 1
    with assms show ?thesis
      by (auto simp: past_fetch_def emit_connected_def fold_onConnected_chain
            fold_onConnected_connects)
  next
    case 2
    with assms show ?thesis
      by (auto simp: past_fetch_def elapse_chain elapse_connects)
  qed
qed

lemma past_fetch_run:
  "past_fetch c s \<Longrightarrow> past_fetch c (run es s) \<and> connect_calls c (run es s) = connect_calls c s"
proof (induction es arbitrary: s)
  case Nil
  then show ?case by (simp add: run_Nil)
next
  case (Cons e es)
  from past_fetch_step [OF Cons.prems, of e] Cons.IH [of "step s e"]
  show ?case by (simp add: run_Cons)
qed

text \<open>A step that leaves a chain short of a call has not made that call for it.\<close>

lemma early_mic_step:
  assumes "\<not> past_wait c (step s e)"
  shows "\<not> past_wait c s \<and> mic_calls c (step s e) = mic_calls c s"
proof (cases "plain e")
  case True
  with assms show ?thesis
    unfolding past_wait_def
    by (cases e) (auto simp: plain_defs mic_calls_def in_phase_def nth_append nth_list_update
          split: sum.splits if_splits)
next
  case False
  then consider "e = EmitConnected" | d where "e = Elapse d" using not_plain by blast
  then show ?thesis
  proof cases
    case 1
    show ?thesis
    proof (cases "in_phase c Waiting s")
      case True
      then have "c < length (chains s)" by (simp add: in_phase_def)
      with assms 1 True show ?thesis
        by (auto simp: past_wait_def in_phase_def emit_connected_def fold_onConnected_chain
              fold_onConnected_mic split: if_splits)
    next
      case False
      with assms 1 show ?thesis
        by (auto simp: past_wait_def in_phase_def emit_connected_def fold_onConnected_chain
              fold_onConnected_mic_absent split: if_splits)
    qed
  next
    case 2
    show ?thesis
    proof (cases "in_phase c Waiting s")
      case True
      then have "c < length (chains s)" by (simp add: in_phase_def)
      with assms 2 True show ?thesis
        by (auto simp: past_wait_def in_phase_def elapse_chain elapse_mic split: if_splits)
    next
      case False
      with assms 2 show ?thesis
        by (auto simp: past_wait_def in_phase_def elapse_chain elapse_mic_absent split: if_splits)
    qed
  qed
qed

lemma early_connect_step:
  assumes "\<not> past_fetch c (step s e)"
  shows "\<not> past_fetch c s \<and> connect_calls c (step s e) = connect_calls c s"
proof (cases "plain e")
  case True
  with assms show ?thesis
    unfolding past_fetch_def
    by (cases e) (auto simp: plain_defs connect_calls_def in_phase_def nth_append nth_list_update
          split: sum.splits if_splits)
next
  case False
  then consider "e = EmitConnected" | d where "e = Elapse d" using not_plain by blast
  then show ?thesis
  proof cases
    case 1
    with assms past_fetch_step [of c s e] show ?thesis
      by (auto simp: emit_connected_def fold_onConnected_connects)
  next
    case 2
    with assms past_fetch_step [of c s e] show ?thesis
      by (auto simp: elapse_connects)
  qed
qed

lemma reachable_no_early_calls:
  assumes "reachable s"
  shows "(\<not> past_fetch c s \<longrightarrow> connect_calls c s = []) \<and> (\<not> past_wait c s \<longrightarrow> mic_calls c s = [])"
  using assms
proof (induction rule: reachable.induct)
  case (reachable_init cfg)
  show ?case by (simp add: init_def connect_calls_def mic_calls_def)
next
  case (reachable_step s e)
  then show ?case using early_mic_step [of c s e] early_connect_step [of c s e] by auto
qed

lemma reachable_before_connect:
  assumes "reachable s" "in_phase c Fetching s"
  shows "connect_calls c s = []" "mic_calls c s = []"
  using reachable_no_early_calls [OF assms(1), of c] assms(2)
  by (auto simp: past_fetch_def past_wait_def in_phase_def)

lemma reachable_before_mic:
  assumes "reachable s" "in_phase c Connecting s \<or> in_phase c Waiting s"
  shows "mic_calls c s = []"
  using reachable_no_early_calls [OF assms(1), of c] assms(2)
  by (auto simp: past_wait_def in_phase_def)

subsection \<open>The state without its activity flag\<close>

lemma step_forget:
  "forget_active (step (s\<lparr>isSessionActive := b\<rparr>) e) = forget_active (step s e)"
proof (cases "plain e")
  case True
  then show ?thesis
    by (cases e) (simp_all add: forget_active_def plain_defs in_phase_def split: sum.splits)
next
  case False
  then consider "e = EmitConnected" | d where "e = Elapse d" using not_plain by blast
  then show ?thesis
  proof cases
    case 1
    then show ?thesis
      using fold_onConnected_active [where cs = "connected_listeners s" and s = s and b = b]
      by (simp add: forget_active_def emit_connected_def)
  next
    case 2
    then show ?thesis by (simp add: forget_active_def elapse_active)
  qed
qed

lemma forget_eq:
  "forget_active s1 = forget_active s2 \<Longrightarrow> s1 = s2\<lparr>isSessionActive := isSessionActive s1\<rparr>"
  unfolding forget_active_def
  by (cases s1, cases s2) simp

lemma run_forget:
  "forget_active s1 = forget_active s2 \<Longrightarrow> forget_active (run es s1) = forget_active (run es s2)"
proof (induction es arbitrary: s1 s2)
  case Nil
  then show ?case by (simp add: run_Nil)
next
  case (Cons e es)
  have "s1 = s2\<lparr>isSessionActive := isSessionActive s1\<rparr>" using Cons.prems by (rule forget_eq)
  then have "forget_active (step s1 e) = forget_active (step s2 e)"
    using step_forget [where s = s2 and b = "isSessionActive s1" and e = e] by simp
  then show ?case unfolding run_Cons by (rule Cons.IH)
qed

lemma forget_fields:
  "forget_active s1 = forget_active s2 \<Longrightarrow>
     effects s1 = effects s2 \<and> chains s1 = chains s2
     \<and> connected_listeners s1 = connected_listeners s2 \<and> timers s1 = timers s2"
  unfolding forget_active_def by (cases s1, cases s2) simp

section \<open>Repeated calls of start\<close>

text \<open>
  C1, as the specification states it: a second \<^verbatim>\<open>start()\<close> while a startup chain is in flight
  issues no second credential fetch and no second \<^verbatim>\<open>connect\<close>. The guard of \<^verbatim>\<open>startSession\<close>
  (line 101) reads \<^verbatim>\<open>room.state\<close>, which is still \<^verbatim>\<open>disconnected\<close> while the first chain waits
  for its credentials: a second call made then starts a second chain, with its own
  \<^verbatim>\<open>tokenSource.fetch\<close> and, once both fetches have answered, its own \<^verbatim>\<open>room.connect\<close>.
\<close>

theorem second_start_counterexample:
  "isSessionActive (run [StartSession] (init example_config))
   \<and> in_phase 0 Fetching (run [StartSession] (init example_config))
   \<and> effects (run [StartSession] (init example_config)) = [TokenFetch 0 (Some ''agent'')]
   \<and> effects (run [StartSession, StartSession] (init example_config)) =
        [TokenFetch 0 (Some ''agent''), TokenFetch 1 (Some ''agent'')]
   \<and> effects (run [StartSession, StartSession, FetchSettled 0 (Inr example_details),
                     FetchSettled 1 (Inr example_details)] (init example_config)) =
        [TokenFetch 0 (Some ''agent''), TokenFetch 1 (Some ''agent''),
         RoomConnect 0 ''wss://example'' ''token'', RoomConnect 1 ''wss://example'' ''token'']"
  by (simp add: run_def init_def op_defs example_config_def example_details_def)

text \<open>
  C1, amended: a call of \<^verbatim>\<open>start()\<close> made once the client no longer reports \<^verbatim>\<open>disconnected\<close>
  issues no credential fetch and no \<^verbatim>\<open>connect\<close> and launches no attempt. The log of calls and
  the chains are the same after the call, and they stay the same as without the call however
  the run goes on.
\<close>

theorem second_start_launches_nothing:
  assumes "room_state s \<noteq> ''disconnected''"
  shows "effects (step s StartSession) = effects s
         \<and> chains (step s StartSession) = chains s
         \<and> effects (run es (step s StartSession)) = effects (run es s)
         \<and> chains (run es (step s StartSession)) = chains (run es s)"
proof -
  have eq: "step s StartSession = s\<lparr>isSessionActive := True\<rparr>"
    using assms by (simp add: startSession_elsewhere)
  have "forget_active (step s StartSession) = forget_active s"
    unfolding eq by (simp add: forget_active_def)
  then have "forget_active (run es (step s StartSession)) = forget_active (run es s)"
    by (rule run_forget)
  from forget_fields [OF this] eq show ?thesis by simp
qed

text \<open>An instance: the second call is made while the first chain waits for \<^verbatim>\<open>room.connect\<close>.\<close>

theorem second_start_launches_nothing_witness:
  "room_state connecting_example \<noteq> ''disconnected''
   \<and> effects (step connecting_example StartSession) =
       [TokenFetch 0 (Some ''agent''), RoomConnect 0 ''wss://example'' ''token'']
   \<and> effects (run [RoomStateBecomes ''connected'', ConnectResolved 0]
                 (step connecting_example StartSession)) =
       [TokenFetch 0 (Some ''agent''), RoomConnect 0 ''wss://example'' ''token'',
        SetMicrophoneEnabled 0 True]
   \<and> length (chains (run [RoomStateBecomes ''connected'', ConnectResolved 0]
                 (step connecting_example StartSession))) = 1"
  using second_start_launches_nothing [of connecting_example
          "[RoomStateBecomes ''connected'', ConnectResolved 0]"]
  by (simp add: connecting_example_eq run_def op_defs)

section \<open>The abort flag\<close>

text \<open>
  C2, as the specification states it: once the disposal has set the flag, every continuation
  of the startup chain checks it before it changes state. Only the \<^verbatim>\<open>.catch\<close> handler reads
  \<^verbatim>\<open>aborted.current\<close> (line 146). With the flag set, the continuation of the credential fetch
  still calls \<^verbatim>\<open>room.connect\<close>, the continuation of \<^verbatim>\<open>connect\<close> still registers its listener and
  its timer, and the wait still ends in \<^verbatim>\<open>setMicrophoneEnabled\<close>.
\<close>

theorem abort_flag_unchecked_counterexample:
  "aborted (run [StartSession, Dispose] (init example_config))
   \<and> effects (run [StartSession, Dispose] (init example_config)) =
       [TokenFetch 0 (Some ''agent''), RoomDisconnect]
   \<and> effects (run [StartSession, Dispose, FetchSettled 0 (Inr example_details)]
                 (init example_config)) =
       [TokenFetch 0 (Some ''agent''), RoomDisconnect, RoomConnect 0 ''wss://example'' ''token'']
   \<and> connected_listeners (run [StartSession, Dispose, FetchSettled 0 (Inr example_details),
                 ConnectResolved 0] (init example_config)) = [0]
   \<and> effects (run [StartSession, Dispose, FetchSettled 0 (Inr example_details),
                 ConnectResolved 0, Elapse 5000] (init example_config)) =
       [TokenFetch 0 (Some ''agent''), RoomDisconnect, RoomConnect 0 ''wss://example'' ''token'',
        SetMicrophoneEnabled 0 True]"
  by (simp add: run_def init_def op_defs example_config_def example_details_def)

text \<open>
  C2, amended: once the flag is set, no continuation of a startup chain changes
  \<^verbatim>\<open>isSessionActive\<close> or gives a notification to the sink, the flag stays set, and the error
  handler, which is the continuation that checks the flag, leaves the state exactly as it is.
\<close>

theorem aborted_continuations_silent:
  assumes "aborted s" "is_continuation e"
  shows "isSessionActive (step s e) = isSessionActive s \<and> toasts (step s e) = toasts s
         \<and> aborted (step s e)
         \<and> on_chain_error err s = s"
  using assms aborted_step_quiet [of s e] step_aborted [of s e] is_continuation_still [of e]
  by (simp add: on_chain_error_aborted)

text \<open>An instance: the credential fetch of a chain fails after the disposal.\<close>

theorem aborted_continuations_silent_witness:
  "aborted (run [StartSession, Dispose] (init example_config))
   \<and> is_continuation (FetchSettled 0 (Inl (new_Error ''Failed to fetch'')))
   \<and> isSessionActive (step (run [StartSession, Dispose] (init example_config))
                          (FetchSettled 0 (Inl (new_Error ''Failed to fetch''))))
   \<and> toasts (step (run [StartSession, Dispose] (init example_config))
                 (FetchSettled 0 (Inl (new_Error ''Failed to fetch'')))) = []"
  using aborted_continuations_silent [of "run [StartSession, Dispose] (init example_config)"
          "FetchSettled 0 (Inl (new_Error ''Failed to fetch''))"]
  by (simp add: run_def init_def op_defs example_config_def toasts_def)

text \<open>
  C4, as the specification states it: after a disposal between \<^verbatim>\<open>start()\<close> and the resolution
  of \<^verbatim>\<open>connect\<close>, the transport is disconnected by the disposal itself. When the disposal falls
  into the credential fetch, the continuation of the fetch (lines 107-113) calls
  \<^verbatim>\<open>room.connect\<close> after the \<^verbatim>\<open>room.disconnect()\<close> of the disposal, and the chain goes on to
  \<^verbatim>\<open>setMicrophoneEnabled\<close>; when that \<^verbatim>\<open>connect\<close> is rejected instead, the suppressed handler
  returns before its own \<^verbatim>\<open>room.disconnect()\<close> (line 146). The last call made on the transport
  is then a \<^verbatim>\<open>connect\<close>.
\<close>

theorem disposal_then_connect_counterexample:
  "in_phase 0 Fetching (run [StartSession] (init example_config))
   \<and> effects (run [StartSession, Dispose, FetchSettled 0 (Inr example_details),
                   RoomStateBecomes ''connected'', ConnectResolved 0] (init example_config)) =
       [TokenFetch 0 (Some ''agent''), RoomDisconnect, RoomConnect 0 ''wss://example'' ''token'',
        SetMicrophoneEnabled 0 True]
   \<and> transport_calls (run [StartSession, Dispose, FetchSettled 0 (Inr example_details),
                   RoomStateBecomes ''connecting'',
                   ConnectRejected 0 \<lparr>err_name = ''ConnectionError'',
                                      err_message = ''could not establish signal connection''\<rparr>]
                   (init example_config)) =
       [RoomDisconnect, RoomConnect 0 ''wss://example'' ''token'']"
  by (simp add: run_def init_def op_defs example_config_def example_details_def
        transport_calls_def)

text \<open>
  C4, amended: whatever the state at the disposal, and in particular when a chain has not yet
  seen \<^verbatim>\<open>connect\<close> resolve, nothing that the chains in flight and the client do afterwards is
  forwarded to the sink or changes \<^verbatim>\<open>isSessionActive\<close>, and the disposal itself calls
  \<^verbatim>\<open>room.disconnect()\<close>. When no chain is waiting for its credentials at the disposal (every
  chain in flight has already called \<^verbatim>\<open>connect\<close>), that call is the last one that connects or
  disconnects the transport.
\<close>

theorem disposal_suppresses_inflight_errors:
  assumes "list_all still_running es"
  shows "toasts (run es (step s Dispose)) = toasts s
         \<and> isSessionActive (run es (step s Dispose)) = isSessionActive s
         \<and> effects (step s Dispose) = effects s @ [RoomDisconnect]
         \<and> (none_fetching s \<longrightarrow>
              transport_calls (run es (step s Dispose)) = transport_calls s @ [RoomDisconnect])"
proof -
  have e: "effects (step s Dispose) = effects s @ [RoomDisconnect]"
    and a: "aborted (step s Dispose)"
    and t: "toasts (step s Dispose) = toasts s"
    and i: "isSessionActive (step s Dispose) = isSessionActive s"
    and tc: "transport_calls (step s Dispose) = transport_calls s @ [RoomDisconnect]"
    by (simp_all add: dispose_def emit_def toasts_def transport_calls_def)
  have "transport_calls (run es (step s Dispose)) = transport_calls s @ [RoomDisconnect]"
    if n: "none_fetching s"
  proof -
    have "none_fetching (step s Dispose)"
      using n by (simp add: none_fetching_def dispose_def emit_def)
    from aborted_run_transport [OF a this assms] tc show ?thesis by simp
  qed
  with e t i aborted_run_still [OF a assms] show ?thesis by simp
qed

text \<open>
  An instance: the hook is disposed while the chain waits for \<^verbatim>\<open>room.connect\<close>; the client then
  reports \<^verbatim>\<open>disconnected\<close>, \<^verbatim>\<open>connect\<close> is rejected, time passes and a late \<^verbatim>\<open>Connected\<close> event
  arrives.
\<close>

theorem disposal_suppresses_inflight_errors_witness:
  "list_all still_running
     [RoomStateBecomes ''disconnected'',
      ConnectRejected 0 \<lparr>err_name = ''ConnectionError'', err_message = ''Client initiated disconnect''\<rparr>,
      Elapse 5000, EmitConnected]
   \<and> none_fetching connecting_example
   \<and> in_phase 0 Connecting connecting_example
   \<and> effects (run [RoomStateBecomes ''disconnected'',
      ConnectRejected 0 \<lparr>err_name = ''ConnectionError'', err_message = ''Client initiated disconnect''\<rparr>,
      Elapse 5000, EmitConnected] (step connecting_example Dispose)) =
       [TokenFetch 0 (Some ''agent''), RoomConnect 0 ''wss://example'' ''token'', RoomDisconnect]
   \<and> transport_calls (run [RoomStateBecomes ''disconnected'',
      ConnectRejected 0 \<lparr>err_name = ''ConnectionError'', err_message = ''Client initiated disconnect''\<rparr>,
      Elapse 5000, EmitConnected] (step connecting_example Dispose)) =
       [RoomConnect 0 ''wss://example'' ''token'', RoomDisconnect]
   \<and> isSessionActive (run [RoomStateBecomes ''disconnected'',
      ConnectRejected 0 \<lparr>err_name = ''ConnectionError'', err_message = ''Client initiated disconnect''\<rparr>,
      Elapse 5000, EmitConnected] (step connecting_example Dispose))"
  using disposal_suppresses_inflight_errors [of
     "[RoomStateBecomes ''disconnected'',
      ConnectRejected 0 \<lparr>err_name = ''ConnectionError'', err_message = ''Client initiated disconnect''\<rparr>,
      Elapse 5000, EmitConnected]" connecting_example]
  by (simp add: connecting_example_eq run_def op_defs none_fetching_def in_phase_def
        transport_calls_def toasts_def)

section \<open>Errors of the startup chain\<close>

text \<open>
  C5, as the specification states it: after a response that is not \<^verbatim>\<open>ok\<close>, the controller
  reports an error that contains the body of the response, and \<^verbatim>\<open>isActive\<close> returns to false.
  A body with the word \<^verbatim>\<open>signal\<close> (or \<^verbatim>\<open>timeout\<close>) in it makes the handler replace the whole
  message by the guidance text (lines 166-168), so the notification does not contain the body;
  and after a disposal nothing is reported and \<^verbatim>\<open>isSessionActive\<close> stays true (line 146).
\<close>

theorem credential_error_counterexample:
  "effects (run [StartSession, FetchSettled 0 (tokenSource (failed_response ''signal lost''))]
              (init example_config)) =
     [TokenFetch 0 (Some ''agent''),
      ToastAlert ''There was an error connecting to the agent''
        ''Error: Connection timeout. Please check your LiveKit server configuration and environment variables.'']
   \<and> \<not> str_includes
        ''Error: Connection timeout. Please check your LiveKit server configuration and environment variables.''
        ''signal lost''
   \<and> effects (run [StartSession, Dispose,
                    FetchSettled 0 (tokenSource (failed_response ''server error''))]
              (init example_config)) =
     [TokenFetch 0 (Some ''agent''), RoomDisconnect]
   \<and> isSessionActive (run [StartSession, Dispose,
                    FetchSettled 0 (tokenSource (failed_response ''server error''))]
              (init example_config))"
  by (simp add: run_def init_def op_defs example_config_def failed_response_def
        tokenSource_def fetch_try_def new_Error_def error_toast_def
        displayed_message_def guidance_def str_includes_def sublist_Cons_right)

text \<open>
  C5, amended: when the credential endpoint answers with a response that is not \<^verbatim>\<open>ok\<close> and
  the hook has not been disposed, the fetch fails with an error whose message is
  \<^verbatim>\<open>Failed to get connection details: \<close> followed by the body of the response; the controller
  gives exactly one notification to the sink, whose description contains the body unless that
  message contains \<^verbatim>\<open>timeout\<close> or \<^verbatim>\<open>signal\<close>, in which case it carries the guidance text;
  \<^verbatim>\<open>isSessionActive\<close> becomes false; and \<^verbatim>\<open>room.connect\<close> is never called for that attempt,
  however the run goes on.
\<close>

theorem credential_failure_reported:
  assumes "reachable s" "\<not> aborted s" "in_phase c Fetching s"
    and "\<not> res_ok res" "res_text res = Inr body"
  shows "tokenSource (Responded res) =
           Inl (new_Error (''Failed to get connection details: '' @ body))
         \<and> str_includes (err_message (new_Error (''Failed to get connection details: '' @ body))) body
         \<and> toasts (step s (FetchSettled c (tokenSource (Responded res)))) =
             toasts s @ [ToastAlert ''There was an error connecting to the agent''
               (''Error: '' @
                  displayed_message (new_Error (''Failed to get connection details: '' @ body)))]
         \<and> (if str_includes (''Failed to get connection details: '' @ body) ''timeout''
               \<or> str_includes (''Failed to get connection details: '' @ body) ''signal''
             then displayed_message (new_Error (''Failed to get connection details: '' @ body)) =
                    guidance
             else str_includes
                    (''Error: '' @
                       displayed_message (new_Error (''Failed to get connection details: '' @ body)))
                    body)
         \<and> \<not> isSessionActive (step s (FetchSettled c (tokenSource (Responded res))))
         \<and> connect_calls c (run es (step s (FetchSettled c (tokenSource (Responded res)))))
             = []"
proof -
  define msg where "msg = ''Failed to get connection details: '' @ body"
  define err where "err = new_Error msg"
  define ev where "ev = FetchSettled c (Inl err)"
  have f: "tokenSource (Responded res) = Inl err"
    unfolding err_def msg_def using assms(4,5) by (rule fetch_non_ok)
  have nm: "err_name err = ''Error''" and ms: "err_message err = msg"
    by (simp_all add: err_def new_Error_def)
  have inc: "str_includes (err_message err) body"
    unfolding ms msg_def by (rule includes_suffix)
  have cf: "chain_fails c err ev s" using assms(3) by (simp add: chain_fails_def ev_def)
  note r = chain_fails_result [OF assms(2) cf]
  have t: "toasts (step s ev) =
      toasts s @ [ToastAlert ''There was an error connecting to the agent''
                    (''Error: '' @ displayed_message err)]"
    unfolding r(2) by (simp add: error_toast_def nm)
  have pf: "past_fetch c (step s ev)" using r(4) by (simp add: past_fetch_def in_phase_def)
  have "connect_calls c (step s ev) = []"
    unfolding r(5) using assms(1,3) by (rule reachable_before_connect)
  then have cc: "connect_calls c (run es (step s ev)) = []"
    using past_fetch_run [OF pf, of es] by simp
  have d: "if str_includes msg ''timeout'' \<or> str_includes msg ''signal''
             then displayed_message err = guidance
             else str_includes (''Error: '' @ displayed_message err) body"
  proof (cases "str_includes msg ''timeout'' \<or> str_includes msg ''signal''")
    case True
    then have "displayed_message err = guidance"
      using displayed_guidance [of err] by (simp add: ms)
    with True show ?thesis by simp
  next
    case False
    have "msg \<noteq> []" by (simp add: msg_def)
    with False have "displayed_message err = msg"
      using displayed_plain [of err] by (simp add: ms)
    moreover have "str_includes (''Error: '' @ msg) body"
      using includes_suffix [of "''Error: '' @ ''Failed to get connection details: ''" body]
      by (simp add: msg_def)
    ultimately show ?thesis using False by simp
  qed
  from f inc t d r(3) cc show ?thesis
    unfolding ev_def err_def msg_def by simp
qed

text \<open>An instance: the endpoint answers with the body \<^verbatim>\<open>server error\<close>.\<close>

theorem credential_failure_reported_witness:
  "reachable fetching_example \<and> \<not> aborted fetching_example \<and> in_phase 0 Fetching fetching_example
   \<and> \<not> res_ok \<lparr>res_ok = False, res_text = Inr ''server error'', res_json = Inl NotError\<rparr>
   \<and> res_text \<lparr>res_ok = False, res_text = Inr ''server error'', res_json = Inl NotError\<rparr> =
        Inr ''server error''
   \<and> toasts (step fetching_example (FetchSettled 0 (tokenSource
         (Responded \<lparr>res_ok = False, res_text = Inr ''server error'', res_json = Inl NotError\<rparr>)))) =
       [ToastAlert ''There was an error connecting to the agent''
          ''Error: Failed to get connection details: server error'']
   \<and> \<not> isSessionActive (step fetching_example (FetchSettled 0 (tokenSource
         (Responded \<lparr>res_ok = False, res_text = Inr ''server error'', res_json = Inl NotError\<rparr>))))
   \<and> connect_calls 0 (run [FetchSettled 0 (Inr example_details), ConnectResolved 0]
        (step fetching_example (FetchSettled 0 (tokenSource
         (Responded \<lparr>res_ok = False, res_text = Inr ''server error'', res_json = Inl NotError\<rparr>)))))
       = []"
proof -
  have r: "reachable fetching_example"
    unfolding fetching_example_def by (rule reachable_run) (rule reachable_init)
  have a: "\<not> aborted fetching_example" and p: "in_phase 0 Fetching fetching_example"
    by (simp_all add: fetching_example_eq in_phase_def)
  have t: "toasts fetching_example = []" by (simp add: fetching_example_eq toasts_def)
  have f: "tokenSource
      (Responded \<lparr>res_ok = False, res_text = Inr ''server error'', res_json = Inl NotError\<rparr>) =
      Inl (new_Error ''Failed to get connection details: server error'')"
    by (simp add: tokenSource_def fetch_try_def)
  from credential_failure_reported [OF r a p, of
      "\<lparr>res_ok = False, res_text = Inr ''server error'', res_json = Inl NotError\<rparr>"
      "''server error''" "[FetchSettled 0 (Inr example_details), ConnectResolved 0]"]
    r a p t
  show ?thesis unfolding f by (simp add: server_error_displayed del: step.simps)
qed

text \<open>
  C6. When a startup chain fails (its credential fetch, its \<^verbatim>\<open>connect\<close> or its
  \<^verbatim>\<open>setMicrophoneEnabled\<close> is rejected) and the hook has not been disposed, the handler calls
  \<^verbatim>\<open>room.disconnect()\<close> if and only if the client does not report \<^verbatim>\<open>disconnected\<close>, sets
  \<^verbatim>\<open>isSessionActive\<close> to false and gives exactly one notification to the sink. The description
  is the name of the error, a colon, and the message: the guidance text when the message of
  the error contains \<^verbatim>\<open>timeout\<close> or \<^verbatim>\<open>signal\<close>, else the message itself (\<^verbatim>\<open>Unknown error\<close>
  when it is empty).
\<close>

theorem startup_error_handling:
  assumes "\<not> aborted s" and "chain_fails c err ev s"
  shows "effects (step s ev) =
           effects s @ (if room_state s \<noteq> ''disconnected'' then [RoomDisconnect] else [])
             @ [ToastAlert ''There was an error connecting to the agent''
                  (err_name err @ '': '' @ displayed_message err)]
         \<and> toasts (step s ev) =
             toasts s @ [ToastAlert ''There was an error connecting to the agent''
                           (err_name err @ '': '' @ displayed_message err)]
         \<and> \<not> isSessionActive (step s ev)
         \<and> in_phase c Settled (step s ev)
         \<and> (if str_includes (err_message err) ''timeout'' \<or> str_includes (err_message err) ''signal''
             then displayed_message err = guidance
             else displayed_message err =
                    (if err_message err = [] then ''Unknown error'' else err_message err))"
proof -
  note r = chain_fails_result [OF assms]
  have d: "if str_includes (err_message err) ''timeout'' \<or> str_includes (err_message err) ''signal''
             then displayed_message err = guidance
             else displayed_message err =
                    (if err_message err = [] then ''Unknown error'' else err_message err)"
    by (simp add: displayed_message_def Let_def unknown_error_plain empty_plain)
  from r(1-4) d show ?thesis by (simp add: error_toast_def)
qed

text \<open>An instance: \<^verbatim>\<open>connect\<close> is rejected with a message that mentions the signal connection.\<close>

theorem startup_error_handling_witness:
  "\<not> aborted connecting_example
   \<and> chain_fails 0 \<lparr>err_name = ''ConnectionError'',
          err_message = ''could not establish signal connection''\<rparr>
        (ConnectRejected 0 \<lparr>err_name = ''ConnectionError'',
          err_message = ''could not establish signal connection''\<rparr>) connecting_example
   \<and> effects (step connecting_example (ConnectRejected 0 \<lparr>err_name = ''ConnectionError'',
          err_message = ''could not establish signal connection''\<rparr>)) =
       [TokenFetch 0 (Some ''agent''), RoomConnect 0 ''wss://example'' ''token'', RoomDisconnect,
        ToastAlert ''There was an error connecting to the agent''
          (''ConnectionError: '' @ guidance)]
   \<and> \<not> isSessionActive (step connecting_example (ConnectRejected 0 \<lparr>err_name = ''ConnectionError'',
          err_message = ''could not establish signal connection''\<rparr>))"
proof -
  have a: "\<not> aborted connecting_example" by (simp add: connecting_example_eq)
  have f: "chain_fails 0 \<lparr>err_name = ''ConnectionError'',
          err_message = ''could not establish signal connection''\<rparr>
        (ConnectRejected 0 \<lparr>err_name = ''ConnectionError'',
          err_message = ''could not establish signal connection''\<rparr>) connecting_example"
    by (simp add: chain_fails_def in_phase_def connecting_example_eq)
  from startup_error_handling [OF a f] a f show ?thesis
    by (simp add: signal_error_displayed connecting_example_eq del: step.simps)
qed

section \<open>The post-connect wait\<close>




text \<open>
  C8. Time is the clock of the model, on which a timer runs when its deadline is reached.
  When \<^verbatim>\<open>connect\<close> resolves, the client does not report \<^verbatim>\<open>connected\<close>, and the \<^verbatim>\<open>Connected\<close>
  event never fires: as long as less than 5000 ms have passed, the chain is still waiting, its
  listener is registered and \<^verbatim>\<open>setMicrophoneEnabled\<close> has not been called; once 5000 ms have
  passed, the listener is gone and \<^verbatim>\<open>setMicrophoneEnabled\<close> has been called exactly once; and
  the call is made in the very step in which the clock reaches 5000 ms.
\<close>

theorem fallback_timer_releases_wait:
  assumes "reachable s" "in_phase c Connecting s" "room_state s \<noteq> ''connected''"
    and "list_all (\<lambda>e. e \<noteq> EmitConnected) es"
  shows "(elapsed es < 5000 \<longrightarrow>
            in_phase c Waiting (run es (step s (ConnectResolved c)))
            \<and> c \<in> set (connected_listeners (run es (step s (ConnectResolved c))))
            \<and> mic_calls c (run es (step s (ConnectResolved c))) = [])
       \<and> (5000 \<le> elapsed es \<longrightarrow>
            c \<notin> set (connected_listeners (run es (step s (ConnectResolved c))))
            \<and> mic_calls c (run es (step s (ConnectResolved c))) =
                 [SetMicrophoneEnabled c (preConnectBuffer (chains s ! c))])
       \<and> (elapsed es < 5000 \<and> 5000 \<le> elapsed es + d \<longrightarrow>
            effects (step (run es (step s (ConnectResolved c))) (Elapse d)) \<noteq>
              effects (run es (step s (ConnectResolved c)))
            \<and> mic_calls c (step (run es (step s (ConnectResolved c))) (Elapse d)) =
                 [SetMicrophoneEnabled c (preConnectBuffer (chains s ! c))])"
proof -
  let ?s1 = "step s (ConnectResolved c)"
  let ?D = "now s + 5000"
  note w = connect_resolved_waits [OF assms(1-3)]
  have m0: "mic_calls c ?s1 = []"
    unfolding mic_calls_def w(2)
    using reachable_before_mic [of s c] assms(1,2) by (simp add: mic_calls_def)
  have n1: "now ?s1 = now s"
    using step_now [of s "ConnectResolved c"] by (simp del: step.simps)
  have A: "in_phase c Waiting (run es ?s1) \<and> c \<in> set (connected_listeners (run es ?s1))
            \<and> mic_calls c (run es ?s1) = []" if "elapsed es < 5000"
  proof -
    have "now ?s1 + elapsed es < ?D" using that n1 by simp
    note b = waiting_run_before [OF w(1) assms(4) this]
    note wd = waiting_onD(1,2) [OF conjunct1 [OF b]]
    from wd b m0 show ?thesis by (simp del: step.simps)
  qed
  have B: "c \<notin> set (connected_listeners (run es ?s1))
            \<and> mic_calls c (run es ?s1) =
                 [SetMicrophoneEnabled c (preConnectBuffer (chains s ! c))]" if "5000 \<le> elapsed es"
  proof -
    have "?D \<le> now ?s1 + elapsed es" using that n1 by simp
    from waiting_run_after [OF w(1) assms(4) this] m0 w(5) show ?thesis
      by (simp add: released_def)
  qed
  have C: "effects (step (run es ?s1) (Elapse d)) \<noteq> effects (run es ?s1)
            \<and> mic_calls c (step (run es ?s1) (Elapse d)) =
                 [SetMicrophoneEnabled c (preConnectBuffer (chains s ! c))]"
    if lt: "elapsed es < 5000" and ge: "5000 \<le> elapsed es + d"
  proof -
    have "now ?s1 + elapsed es < ?D" using lt n1 by simp
    note b = waiting_run_before [OF w(1) assms(4) this]
    have nw: "now (run es ?s1) = now s + elapsed es"
      using run_now [of es ?s1] n1 by (simp del: step.simps)
    have "?D \<le> now (run es ?s1) + d" using ge nw by simp
    note f = waiting_fires [OF conjunct1 [OF b] this]
    have mc: "mic_calls c (step (run es ?s1) (Elapse d)) =
                 [SetMicrophoneEnabled c (preConnectBuffer (chains s ! c))]"
      using f b m0 w(5) by (simp del: step.simps)
    have "mic_calls c (run es ?s1) = []" using b m0 by simp
    with mc have "effects (step (run es ?s1) (Elapse d)) \<noteq> effects (run es ?s1)"
      unfolding mic_calls_def by auto
    with mc show ?thesis by simp
  qed
  from A B C show ?thesis by blast
qed

text \<open>An instance: 4999 ms pass, the client changes its state, one more millisecond passes.\<close>

theorem fallback_timer_releases_wait_witness:
  "reachable connecting_example \<and> in_phase 0 Connecting connecting_example
   \<and> room_state connecting_example \<noteq> ''connected''
   \<and> list_all (\<lambda>e. e \<noteq> EmitConnected) [Elapse 4999, RoomStateBecomes ''connected'']
   \<and> elapsed [Elapse 4999, RoomStateBecomes ''connected''] < 5000
   \<and> 5000 \<le> elapsed [Elapse 4999, RoomStateBecomes ''connected'', Elapse 1]
   \<and> mic_calls 0 (run [Elapse 4999, RoomStateBecomes ''connected'']
                     (step connecting_example (ConnectResolved 0))) = []
   \<and> 0 \<in> set (connected_listeners (run [Elapse 4999, RoomStateBecomes ''connected'']
                     (step connecting_example (ConnectResolved 0))))
   \<and> mic_calls 0 (run [Elapse 4999, RoomStateBecomes ''connected'', Elapse 1]
                     (step connecting_example (ConnectResolved 0))) = [SetMicrophoneEnabled 0 True]
   \<and> 0 \<notin> set (connected_listeners (run [Elapse 4999, RoomStateBecomes ''connected'', Elapse 1]
                     (step connecting_example (ConnectResolved 0))))"
proof -
  have r: "reachable connecting_example"
    unfolding connecting_example_def by (rule reachable_run) (rule reachable_init)
  have p: "in_phase 0 Connecting connecting_example"
    and n: "room_state connecting_example \<noteq> ''connected''"
    and f: "preConnectBuffer (chains connecting_example ! 0)"
    by (simp_all add: connecting_example_eq in_phase_def)
  have l1: "list_all (\<lambda>e. e \<noteq> EmitConnected) [Elapse 4999, RoomStateBecomes ''connected'']"
    and l2: "list_all (\<lambda>e. e \<noteq> EmitConnected) [Elapse 4999, RoomStateBecomes ''connected'', Elapse 1]"
    by simp_all
  from fallback_timer_releases_wait [OF r p n l1, of 1]
       fallback_timer_releases_wait [OF r p n l2, of 0] r p n f
  show ?thesis by (simp del: step.simps)
qed

section \<open>The handlers and the entry points\<close>

text \<open>
  C7. The handler of the connection-state-change event leaves \<^verbatim>\<open>isActive\<close> as it is for
  \<^verbatim>\<open>reconnecting\<close> and sets it to false for \<^verbatim>\<open>disconnected\<close>; for every state \<open>st\<close>,
  \<^verbatim>\<open>isActive\<close> is true afterwards exactly when it was true before and \<open>st\<close> is not
  \<^verbatim>\<open>disconnected\<close>.
\<close>

theorem connection_state_change_isActive:
  "isSessionActive (step s (EmitConnectionStateChanged ''reconnecting'')) = isSessionActive s
   \<and> isSessionActive (step s (EmitConnectionStateChanged ''disconnected'')) = False
   \<and> isSessionActive (step s (EmitConnectionStateChanged st)) =
       (isSessionActive s \<and> st \<noteq> ''disconnected'')"
  by (simp add: onConnectionStateChanged_def)

text \<open>
  C9. \<^verbatim>\<open>stop()\<close> sets \<^verbatim>\<open>isActive\<close> to false at once and does nothing else: it issues no call
  (in particular no \<^verbatim>\<open>disconnect\<close>) and leaves the connection state of the client as it was.
\<close>

theorem endSession_only_clears_isActive:
  "step s EndSession = s\<lparr>isSessionActive := False\<rparr>
   \<and> isSessionActive (step s EndSession) = False
   \<and> effects (step s EndSession) = effects s
   \<and> room_state (step s EndSession) = room_state s"
  by (simp add: endSession_def)

text \<open>
  C10. A call of \<^verbatim>\<open>start()\<close> while the client reports anything but \<^verbatim>\<open>disconnected\<close> sets
  \<^verbatim>\<open>isActive\<close> to true and does nothing else: no credential fetch, no \<^verbatim>\<open>connect\<close>, no
  \<^verbatim>\<open>setMicrophoneEnabled\<close>. So \<^verbatim>\<open>stop()\<close>, which leaves the connection state alone, followed
  by \<^verbatim>\<open>start()\<close> gives the state before the two calls with \<^verbatim>\<open>isActive\<close> true, and the same
  log of calls.
\<close>

theorem start_when_not_disconnected:
  "room_state s \<noteq> ''disconnected'' \<Longrightarrow>
     step s StartSession = s\<lparr>isSessionActive := True\<rparr>
     \<and> effects (step s StartSession) = effects s
     \<and> room_state (step s EndSession) = room_state s
     \<and> step (step s EndSession) StartSession = s\<lparr>isSessionActive := True\<rparr>
     \<and> effects (step (step s EndSession) StartSession) = effects s"
  by (simp add: startSession_elsewhere endSession_def)

text \<open>An instance: a connected session is stopped and started again.\<close>

theorem start_when_not_disconnected_witness:
  "room_state connected_example \<noteq> ''disconnected''
   \<and> step (step connected_example EndSession) StartSession = connected_example
   \<and> effects (step (step connected_example EndSession) StartSession) =
        [TokenFetch 0 (Some ''agent''), RoomConnect 0 ''wss://example'' ''token'',
         SetMicrophoneEnabled 0 True]"
  using start_when_not_disconnected [of connected_example]
  by (simp add: connected_example_eq)

end
